theory Spec2Isabelle
  imports Main "HOL-Library.Word"
begin

unbundle bit_operations_syntax

section \<open>The FIFO descriptor of \<^verbatim>\<open>fifo.h\<close>\<close>

text \<open>
  The error codes of the driver, the anonymous \<^verbatim>\<open>enum\<close> of \<^verbatim>\<open>fifo.h\<close>
  (values 0, 1, 2, 3 in this order).
\<close>

datatype fifo_status = FIFO_OK | FIFO_ERROR_OVERFLOW | FIFO_ERROR_UNDERFLOW | FIFO_ERROR

text \<open>
  \<^verbatim>\<open>struct fifo_desc\<close>. The union of the three pointers points to storage that the
  caller owns; the model keeps the pointed-to array in the descriptor, as a list of
  elements of the width the FIFO is used with (\<open>'e\<close> is \<open>8 word\<close>, \<open>16 word\<close> or
  \<open>32 word\<close>). The four remaining fields are \<^verbatim>\<open>uint8_t\<close>. The fields \<^verbatim>\<open>size\<close> and
  \<^verbatim>\<open>mask\<close> carry a suffix, since both names are constants of HOL.
\<close>

record 'e fifo_desc =
  buffer :: "'e list"
  read_index :: "8 word"
  write_index :: "8 word"
  size_f :: "8 word"
  mask_f :: "8 word"

subsection \<open>The index expressions\<close>

text \<open>
  C evaluates the operands of \<^verbatim>\<open>-\<close>, \<^verbatim>\<open>+\<close>, \<^verbatim>\<open>&\<close> and \<^verbatim>\<open>>>\<close> after promoting
  each \<^verbatim>\<open>uint8_t\<close> to \<^verbatim>\<open>int\<close>, and converts the result back to \<^verbatim>\<open>uint8_t\<close>
  (reduction modulo 256) where it is stored in or returned as one. The definitions below
  write the promotion out: \<open>uint\<close> is the promotion and \<open>word_of_int\<close> the conversion
  back.

  \<open>slot_of i m\<close> is the subscript \<^verbatim>\<open>i & (m >> 1)\<close> and \<open>advance i m\<close> is the new index
  \<^verbatim>\<open>(i + 1) & m\<close>, the two expressions every push, pull and peek shares.
\<close>

definition slot_of :: "8 word \<Rightarrow> 8 word \<Rightarrow> nat" where
  "slot_of i m = nat (uint i AND drop_bit 1 (uint m))"

definition advance :: "8 word \<Rightarrow> 8 word \<Rightarrow> 8 word" where
  "advance i m = word_of_int ((uint i + 1) AND uint m)"

subsection \<open>Occupancy queries\<close>

definition fifo_get_used_size :: "'e fifo_desc \<Rightarrow> 8 word" where
  "fifo_get_used_size fifo_desc =
     word_of_int ((uint (write_index fifo_desc) - uint (read_index fifo_desc))
                   AND uint (mask_f fifo_desc))"

definition fifo_get_free_size :: "'e fifo_desc \<Rightarrow> 8 word" where
  "fifo_get_free_size fifo_desc =
     word_of_int (uint (size_f fifo_desc) - uint (fifo_get_used_size fifo_desc))"

definition fifo_is_empty :: "'e fifo_desc \<Rightarrow> bool" where
  "fifo_is_empty fifo_desc \<longleftrightarrow> write_index fifo_desc = read_index fifo_desc"

definition fifo_is_full :: "'e fifo_desc \<Rightarrow> bool" where
  "fifo_is_full fifo_desc \<longleftrightarrow> fifo_get_used_size fifo_desc = size_f fifo_desc"

subsection \<open>Push\<close>

text \<open>
  The item is passed as \<^verbatim>\<open>uint32_t\<close> at every width; the assignment to the slot converts
  it to the element type (\<open>ucast\<close>: reduction modulo \<open>2 ^ width\<close>). The slot is written
  first, the index afterwards. An update of a list beyond its end leaves the list as it
  is; in C it is undefined behaviour. Lemma \<open>slot_of_in_range\<close> below shows that a
  descriptor initialised with storage of at least \<^verbatim>\<open>size\<close> elements never gets there.
\<close>

definition fifo_push_uint8_nocheck :: "8 word fifo_desc \<Rightarrow> 32 word \<Rightarrow> 8 word fifo_desc" where
  "fifo_push_uint8_nocheck fifo_desc item =
     (let wi = write_index fifo_desc;
          buf = (buffer fifo_desc)[slot_of wi (mask_f fifo_desc) := ucast item];
          wi = advance wi (mask_f fifo_desc)
      in fifo_desc\<lparr>buffer := buf, write_index := wi\<rparr>)"

definition fifo_push_uint8 :: "8 word fifo_desc \<Rightarrow> 32 word \<Rightarrow> fifo_status \<times> 8 word fifo_desc" where
  "fifo_push_uint8 fifo_desc item =
     (if fifo_is_full fifo_desc then (FIFO_ERROR_OVERFLOW, fifo_desc)
      else
        let wi = write_index fifo_desc;
            buf = (buffer fifo_desc)[slot_of wi (mask_f fifo_desc) := ucast item];
            wi = advance wi (mask_f fifo_desc)
        in (FIFO_OK, fifo_desc\<lparr>buffer := buf, write_index := wi\<rparr>))"

definition fifo_push_uint16_nocheck :: "16 word fifo_desc \<Rightarrow> 32 word \<Rightarrow> 16 word fifo_desc" where
  "fifo_push_uint16_nocheck fifo_desc item =
     (let wi = write_index fifo_desc;
          buf = (buffer fifo_desc)[slot_of wi (mask_f fifo_desc) := ucast item];
          wi = advance wi (mask_f fifo_desc)
      in fifo_desc\<lparr>buffer := buf, write_index := wi\<rparr>)"

definition fifo_push_uint16 :: "16 word fifo_desc \<Rightarrow> 32 word \<Rightarrow> fifo_status \<times> 16 word fifo_desc" where
  "fifo_push_uint16 fifo_desc item =
     (if fifo_is_full fifo_desc then (FIFO_ERROR_OVERFLOW, fifo_desc)
      else
        let wi = write_index fifo_desc;
            buf = (buffer fifo_desc)[slot_of wi (mask_f fifo_desc) := ucast item];
            wi = advance wi (mask_f fifo_desc)
        in (FIFO_OK, fifo_desc\<lparr>buffer := buf, write_index := wi\<rparr>))"

definition fifo_push_uint32_nocheck :: "32 word fifo_desc \<Rightarrow> 32 word \<Rightarrow> 32 word fifo_desc" where
  "fifo_push_uint32_nocheck fifo_desc item =
     (let wi = write_index fifo_desc;
          buf = (buffer fifo_desc)[slot_of wi (mask_f fifo_desc) := item];
          wi = advance wi (mask_f fifo_desc)
      in fifo_desc\<lparr>buffer := buf, write_index := wi\<rparr>)"

definition fifo_push_uint32 :: "32 word fifo_desc \<Rightarrow> 32 word \<Rightarrow> fifo_status \<times> 32 word fifo_desc" where
  "fifo_push_uint32 fifo_desc item =
     (if fifo_is_full fifo_desc then (FIFO_ERROR_OVERFLOW, fifo_desc)
      else
        let wi = write_index fifo_desc;
            buf = (buffer fifo_desc)[slot_of wi (mask_f fifo_desc) := item];
            wi = advance wi (mask_f fifo_desc)
        in (FIFO_OK, fifo_desc\<lparr>buffer := buf, write_index := wi\<rparr>))"

subsection \<open>Pull and peek\<close>

text \<open>
  The unchecked pull returns the element together with the updated descriptor. The
  checked pull writes the element through the pointer \<^verbatim>\<open>item\<close>: the model takes the
  value stored at \<^verbatim>\<open>*item\<close> before the call and returns the status, the value stored
  there after the call and the updated descriptor. The slot is read first, the index is
  updated afterwards. The caller's variable is taken to lie outside the descriptor and
  its storage.
\<close>

definition fifo_pull_uint8_nocheck :: "8 word fifo_desc \<Rightarrow> 8 word \<times> 8 word fifo_desc" where
  "fifo_pull_uint8_nocheck fifo_desc =
     (let ri = read_index fifo_desc;
          item = buffer fifo_desc ! slot_of ri (mask_f fifo_desc);
          ri = advance ri (mask_f fifo_desc)
      in (item, fifo_desc\<lparr>read_index := ri\<rparr>))"

definition fifo_pull_uint8 ::
    "8 word fifo_desc \<Rightarrow> 8 word \<Rightarrow> fifo_status \<times> 8 word \<times> 8 word fifo_desc" where
  "fifo_pull_uint8 fifo_desc item =
     (if fifo_is_empty fifo_desc then (FIFO_ERROR_UNDERFLOW, item, fifo_desc)
      else
        let ri = read_index fifo_desc;
            item = buffer fifo_desc ! slot_of ri (mask_f fifo_desc);
            ri = advance ri (mask_f fifo_desc)
        in (FIFO_OK, item, fifo_desc\<lparr>read_index := ri\<rparr>))"

definition fifo_pull_uint16_nocheck :: "16 word fifo_desc \<Rightarrow> 16 word \<times> 16 word fifo_desc" where
  "fifo_pull_uint16_nocheck fifo_desc =
     (let ri = read_index fifo_desc;
          item = buffer fifo_desc ! slot_of ri (mask_f fifo_desc);
          ri = advance ri (mask_f fifo_desc)
      in (item, fifo_desc\<lparr>read_index := ri\<rparr>))"

definition fifo_pull_uint16 ::
    "16 word fifo_desc \<Rightarrow> 16 word \<Rightarrow> fifo_status \<times> 16 word \<times> 16 word fifo_desc" where
  "fifo_pull_uint16 fifo_desc item =
     (if fifo_is_empty fifo_desc then (FIFO_ERROR_UNDERFLOW, item, fifo_desc)
      else
        let ri = read_index fifo_desc;
            item = buffer fifo_desc ! slot_of ri (mask_f fifo_desc);
            ri = advance ri (mask_f fifo_desc)
        in (FIFO_OK, item, fifo_desc\<lparr>read_index := ri\<rparr>))"

definition fifo_pull_uint32_nocheck :: "32 word fifo_desc \<Rightarrow> 32 word \<times> 32 word fifo_desc" where
  "fifo_pull_uint32_nocheck fifo_desc =
     (let ri = read_index fifo_desc;
          item = buffer fifo_desc ! slot_of ri (mask_f fifo_desc);
          ri = advance ri (mask_f fifo_desc)
      in (item, fifo_desc\<lparr>read_index := ri\<rparr>))"

definition fifo_pull_uint32 ::
    "32 word fifo_desc \<Rightarrow> 32 word \<Rightarrow> fifo_status \<times> 32 word \<times> 32 word fifo_desc" where
  "fifo_pull_uint32 fifo_desc item =
     (if fifo_is_empty fifo_desc then (FIFO_ERROR_UNDERFLOW, item, fifo_desc)
      else
        let ri = read_index fifo_desc;
            item = buffer fifo_desc ! slot_of ri (mask_f fifo_desc);
            ri = advance ri (mask_f fifo_desc)
        in (FIFO_OK, item, fifo_desc\<lparr>read_index := ri\<rparr>))"

definition fifo_peek_uint32 :: "32 word fifo_desc \<Rightarrow> 32 word" where
  "fifo_peek_uint32 fifo_desc =
     buffer fifo_desc ! slot_of (read_index fifo_desc) (mask_f fifo_desc)"

definition fifo_peek_uint16 :: "16 word fifo_desc \<Rightarrow> 16 word" where
  "fifo_peek_uint16 fifo_desc =
     buffer fifo_desc ! slot_of (read_index fifo_desc) (mask_f fifo_desc)"

definition fifo_peek_uint8 :: "8 word fifo_desc \<Rightarrow> 8 word" where
  "fifo_peek_uint8 fifo_desc =
     buffer fifo_desc ! slot_of (read_index fifo_desc) (mask_f fifo_desc)"

subsection \<open>Flush\<close>

definition fifo_flush :: "'e fifo_desc \<Rightarrow> 'e fifo_desc" where
  "fifo_flush fifo_desc = fifo_desc\<lparr>write_index := 0, read_index := 0\<rparr>"

subsection \<open>Initialisation\<close>

text \<open>
  Modelled from the spec: the body of \<^verbatim>\<open>fifo_init\<close>. \<^verbatim>\<open>fifo.h\<close> declares the function
  and documents it (\<^verbatim>\<open>size\<close> must be a power of two and at most 128, \<^verbatim>\<open>FIFO_OK\<close> when
  no error occurred, \<^verbatim>\<open>FIFO_ERROR\<close> when the size is not a power of two); its body is in
  no source file at hand. The spec: the capacity must be a power of two in
  \<open>{1, 2, 4, ..., 128}\<close>, otherwise the call fails with \<open>InvalidCapacity\<close> (the code
  \<^verbatim>\<open>FIFO_ERROR\<close>) and has no other effect; on success both indices are 0, the capacity is
  recorded and the index mask is \<open>2 \<times> capacity - 1\<close>. The argument \<open>buf\<close> is the
  caller's storage with whatever it holds.
\<close>

definition fifo_init :: "'e fifo_desc \<Rightarrow> 'e list \<Rightarrow> 8 word \<Rightarrow> fifo_status \<times> 'e fifo_desc" where
  "fifo_init fifo_desc buf sz =
     (if sz \<in> set [1, 2, 4, 8, 16, 32, 64, 128]
      then (FIFO_OK, \<lparr>buffer = buf, read_index = 0, write_index = 0,
                      size_f = sz, mask_f = 2 * sz - 1\<rparr>)
      else (FIFO_ERROR, fifo_desc))"

section \<open>Sequences of calls\<close>

text \<open>
  A caller of the driver: a list of calls, run one after the other on a descriptor and on
  the caller's variable \<open>cell\<close> that receives the pulled elements (its address is the
  \<^verbatim>\<open>item\<close> argument of every checked pull). A checked call can always be made. An
  unchecked call is made only where its precondition holds (the FIFO is not full, or not
  empty); a sequence that breaks the precondition is no run at all (\<open>None\<close>). The value
  of a push is of type \<open>'v\<close>: the \<^verbatim>\<open>uint32_t\<close> argument for the driver, the element
  for the specification of a queue below.
\<close>

datatype 'v fifo_op = Push 'v | Pull | Push_nocheck 'v | Pull_nocheck

datatype 'e fifo_event =
    Push_returned fifo_status
  | Pull_returned fifo_status 'e
  | Pushed_nocheck
  | Pulled_nocheck 'e

text \<open>The four functions of one element width.\<close>

record 'e fifo_ops =
  op_push :: "'e fifo_desc \<Rightarrow> 32 word \<Rightarrow> fifo_status \<times> 'e fifo_desc"
  op_push_nocheck :: "'e fifo_desc \<Rightarrow> 32 word \<Rightarrow> 'e fifo_desc"
  op_pull :: "'e fifo_desc \<Rightarrow> 'e \<Rightarrow> fifo_status \<times> 'e \<times> 'e fifo_desc"
  op_pull_nocheck :: "'e fifo_desc \<Rightarrow> 'e \<times> 'e fifo_desc"

definition fifo_uint8 :: "8 word fifo_ops" where
  "fifo_uint8 = \<lparr>op_push = fifo_push_uint8, op_push_nocheck = fifo_push_uint8_nocheck,
                  op_pull = fifo_pull_uint8, op_pull_nocheck = fifo_pull_uint8_nocheck\<rparr>"

definition fifo_uint16 :: "16 word fifo_ops" where
  "fifo_uint16 = \<lparr>op_push = fifo_push_uint16, op_push_nocheck = fifo_push_uint16_nocheck,
                   op_pull = fifo_pull_uint16, op_pull_nocheck = fifo_pull_uint16_nocheck\<rparr>"

definition fifo_uint32 :: "32 word fifo_ops" where
  "fifo_uint32 = \<lparr>op_push = fifo_push_uint32, op_push_nocheck = fifo_push_uint32_nocheck,
                   op_pull = fifo_pull_uint32, op_pull_nocheck = fifo_pull_uint32_nocheck\<rparr>"

fun fifo_step ::
    "'e fifo_ops \<Rightarrow> 'e fifo_desc \<times> 'e \<Rightarrow> 32 word fifo_op
      \<Rightarrow> ('e fifo_event \<times> 'e fifo_desc \<times> 'e) option" where
  "fifo_step api (fd, cell) (Push v) =
     (case op_push api fd v of (st, fd') \<Rightarrow> Some (Push_returned st, fd', cell))"
| "fifo_step api (fd, cell) Pull =
     (case op_pull api fd cell of (st, cell', fd') \<Rightarrow> Some (Pull_returned st cell', fd', cell'))"
| "fifo_step api (fd, cell) (Push_nocheck v) =
     (if fifo_is_full fd then None
      else Some (Pushed_nocheck, op_push_nocheck api fd v, cell))"
| "fifo_step api (fd, cell) Pull_nocheck =
     (if fifo_is_empty fd then None
      else case op_pull_nocheck api fd of (x, fd') \<Rightarrow> Some (Pulled_nocheck x, fd', x))"

text \<open>
  \<open>run_ops step s ops\<close> runs the calls in order from the state \<open>s\<close> and returns what
  each call returned, in order, together with the last state.
\<close>

fun run_ops :: "('s \<Rightarrow> 'c \<Rightarrow> ('r \<times> 's) option) \<Rightarrow> 's \<Rightarrow> 'c list \<Rightarrow> ('r list \<times> 's) option" where
  "run_ops step s [] = Some ([], s)"
| "run_ops step s (c # cs) =
     (case step s c of
        None \<Rightarrow> None
      | Some (r, s') \<Rightarrow>
          (case run_ops step s' cs of
             None \<Rightarrow> None
           | Some (rs, s'') \<Rightarrow> Some (r # rs, s'')))"

definition fifo_run ::
    "'e fifo_ops \<Rightarrow> 'e fifo_desc \<times> 'e \<Rightarrow> 32 word fifo_op list
      \<Rightarrow> ('e fifo_event list \<times> 'e fifo_desc \<times> 'e) option" where
  "fifo_run api = run_ops (fifo_step api)"

subsection \<open>The specification of a bounded queue\<close>

text \<open>
  The queue the spec describes, written from its words and not from the code: a list of
  at most \<open>n\<close> elements, oldest first. A push appends at the back, or fails with
  \<open>Overflow\<close> and changes nothing when \<open>n\<close> elements are queued; a pull removes the
  front element and delivers it, or fails with \<open>Underflow\<close> and changes nothing when
  the queue is empty.
\<close>

fun queue_step ::
    "nat \<Rightarrow> 'e list \<times> 'e \<Rightarrow> 'e fifo_op \<Rightarrow> ('e fifo_event \<times> 'e list \<times> 'e) option" where
  "queue_step n (q, cell) (Push v) =
     (if n \<le> length q then Some (Push_returned FIFO_ERROR_OVERFLOW, q, cell)
      else Some (Push_returned FIFO_OK, q @ [v], cell))"
| "queue_step n (q, cell) Pull =
     (case q of
        [] \<Rightarrow> Some (Pull_returned FIFO_ERROR_UNDERFLOW cell, q, cell)
      | x # q' \<Rightarrow> Some (Pull_returned FIFO_OK x, q', x))"
| "queue_step n (q, cell) (Push_nocheck v) =
     (if n \<le> length q then None else Some (Pushed_nocheck, q @ [v], cell))"
| "queue_step n (q, cell) Pull_nocheck =
     (case q of [] \<Rightarrow> None | x # q' \<Rightarrow> Some (Pulled_nocheck x, q', x))"

definition queue_run ::
    "nat \<Rightarrow> 'e list \<times> 'e \<Rightarrow> 'e fifo_op list \<Rightarrow> ('e fifo_event list \<times> 'e list \<times> 'e) option" where
  "queue_run n = run_ops (queue_step n)"

section \<open>The driver at any element width\<close>

text \<open>
  The six pushes and the six pulls of \<^verbatim>\<open>fifo.h\<close> are the same text at three element
  types. The definitions below are that text once, for an element of any width; the
  lemmas \<open>fifo_uint8_generic\<close>, \<open>fifo_uint16_generic\<close> and \<open>fifo_uint32_generic\<close> show
  that each function of the driver, as defined above, is its instance.
\<close>

definition fifo_push_nocheck :: "'a::len word fifo_desc \<Rightarrow> 32 word \<Rightarrow> 'a word fifo_desc" where
  "fifo_push_nocheck fd item =
     fd\<lparr>buffer := (buffer fd)[slot_of (write_index fd) (mask_f fd) := ucast item],
        write_index := advance (write_index fd) (mask_f fd)\<rparr>"

definition fifo_push :: "'a::len word fifo_desc \<Rightarrow> 32 word \<Rightarrow> fifo_status \<times> 'a word fifo_desc" where
  "fifo_push fd item =
     (if fifo_is_full fd then (FIFO_ERROR_OVERFLOW, fd) else (FIFO_OK, fifo_push_nocheck fd item))"

definition fifo_pull_nocheck :: "'e fifo_desc \<Rightarrow> 'e \<times> 'e fifo_desc" where
  "fifo_pull_nocheck fd =
     (buffer fd ! slot_of (read_index fd) (mask_f fd),
      fd\<lparr>read_index := advance (read_index fd) (mask_f fd)\<rparr>)"

definition fifo_pull :: "'e fifo_desc \<Rightarrow> 'e \<Rightarrow> fifo_status \<times> 'e \<times> 'e fifo_desc" where
  "fifo_pull fd item =
     (if fifo_is_empty fd then (FIFO_ERROR_UNDERFLOW, item, fd)
      else (FIFO_OK, fifo_pull_nocheck fd))"

definition fifo_generic :: "'a::len word fifo_ops" where
  "fifo_generic = \<lparr>op_push = fifo_push, op_push_nocheck = fifo_push_nocheck,
                    op_pull = fifo_pull, op_pull_nocheck = fifo_pull_nocheck\<rparr>"

subsection \<open>Invariant and abstraction\<close>

text \<open>
  \<open>index_inv k fd\<close>: the descriptor is one of capacity \<open>2 ^ k\<close>, both indices are below
  twice the capacity and their distance modulo twice the capacity is at most the
  capacity. \<open>ring_items buf n r c\<close> are the \<open>c\<close> elements stored from index \<open>r\<close> on in
  a ring of \<open>n\<close> slots, and \<open>fifo_items k fd\<close> are the elements queued in \<open>fd\<close>,
  oldest first.
\<close>

definition index_inv :: "nat \<Rightarrow> 'e fifo_desc \<Rightarrow> bool" where
  "index_inv k fd \<longleftrightarrow>
     k \<le> 7 \<and> size_f fd = 2 ^ k \<and> mask_f fd = 2 * 2 ^ k - 1 \<and>
     uint (read_index fd) < 2 * 2 ^ k \<and> uint (write_index fd) < 2 * 2 ^ k \<and>
     (uint (write_index fd) - uint (read_index fd)) mod (2 * 2 ^ k) \<le> 2 ^ k"

definition fifo_inv :: "nat \<Rightarrow> 'e fifo_desc \<Rightarrow> bool" where
  "fifo_inv k fd \<longleftrightarrow> index_inv k fd \<and> 2 ^ k \<le> length (buffer fd)"

fun ring_items :: "'e list \<Rightarrow> int \<Rightarrow> int \<Rightarrow> nat \<Rightarrow> 'e list" where
  "ring_items buf n r 0 = []"
| "ring_items buf n r (Suc c) = buf ! nat (r mod n) # ring_items buf n (r + 1) c"

definition fifo_count :: "nat \<Rightarrow> 'e fifo_desc \<Rightarrow> nat" where
  "fifo_count k fd = nat ((uint (write_index fd) - uint (read_index fd)) mod (2 * 2 ^ k))"

definition fifo_items :: "nat \<Rightarrow> 'e fifo_desc \<Rightarrow> 'e list" where
  "fifo_items k fd = ring_items (buffer fd) (2 ^ k) (uint (read_index fd)) (fifo_count k fd)"

section \<open>Index arithmetic\<close>

text \<open>
  With a mask of \<open>2 * 2 ^ k - 1\<close> (\<open>k \<le> 7\<close>) the promoted expressions of the driver are
  remainders: \<^verbatim>\<open>& mask\<close> is the remainder modulo \<open>2 * 2 ^ k\<close>, and
  \<^verbatim>\<open>& (mask >> 1)\<close> the remainder modulo \<open>2 ^ k\<close>.
\<close>

lemma pow2_le_128: "k \<le> 7 \<Longrightarrow> (2 ^ k :: int) \<le> 128"
  using power_increasing [of k 7 "2::int"] by simp

lemma uint_mask8: "k \<le> 7 \<Longrightarrow> uint (2 * 2 ^ k - 1 :: 8 word) = 2 * 2 ^ k - 1"
proof -
  assume k: "k \<le> 7"
  have "(2 * 2 ^ k - 1 :: 8 word) = mask (Suc k)"
    by (simp add: mask_eq_exp_minus_1)
  moreover have "uint (mask (Suc k) :: 8 word) = mask (Suc k)"
    using k by (simp add: uint_mask_eq min_def del: mask_Suc_exp mask_Suc_0)
  ultimately show ?thesis
    by (simp add: mask_eq_exp_minus_1)
qed

lemma uint_pow8: 
  assumes "k \<le> 7" shows "uint (2 ^ k :: 8 word) = 2 ^ k"
proof -
  have "(2 ^ k :: 8 word) \<noteq> 0"
    using assms by (simp add: exp_eq_zero_iff)
  then have "0 < (2 ^ k :: 8 word)"
    by (simp add: word_gt_0)
  then show ?thesis by (rule uint_2p)
qed

lemma int_and_pow2m1: "(x::int) AND (2 * 2 ^ k - 1) = x mod (2 * 2 ^ k)"
  using take_bit_eq_mask [of "Suc k" x] by (simp add: mask_eq_exp_minus_1 take_bit_eq_mod)

lemma int_and_pow2m1': "(x::int) AND (2 ^ k - 1) = x mod 2 ^ k"
  using take_bit_eq_mask [of "k" x] by (simp add: mask_eq_exp_minus_1 take_bit_eq_mod)

lemma drop_bit_pow2m1: "drop_bit 1 (2 * 2 ^ k - 1 :: int) = 2 ^ k - 1"
proof -
  have "(2 * 2 ^ k - 1 :: int) div 2 = 2 ^ k - 1" by linarith
  then show ?thesis by (simp add: drop_bit_eq_div)
qed

lemma slot_of_mod: "k \<le> 7 \<Longrightarrow> slot_of i (2 * 2 ^ k - 1) = nat (uint i mod 2 ^ k)"
  by (simp only: slot_of_def uint_mask8 drop_bit_pow2m1 int_and_pow2m1')

lemma uint_word_of_int_small: "0 \<le> x \<Longrightarrow> x < 256 \<Longrightarrow> uint (word_of_int x :: 8 word) = x"
  by (simp add: uint_word_of_int)

lemma uint_advance:
  assumes "k \<le> 7"
  shows "uint (advance i (2 * 2 ^ k - 1)) = (uint i + 1) mod (2 * 2 ^ k)"
proof -
  have "(uint i + 1) mod (2 * 2 ^ k) < 2 * 2 ^ k" by simp
  then have "(uint i + 1) mod (2 * 2 ^ k) < 256"
    using pow2_le_128 [OF assms] by linarith
  moreover have "0 \<le> (uint i + 1) mod (2 * 2 ^ k)" by simp
  ultimately show ?thesis
    using assms by (simp only: advance_def uint_mask8 int_and_pow2m1 uint_word_of_int_small)
qed

lemma uint_used_size:
  assumes "k \<le> 7" and "mask_f fd = 2 * 2 ^ k - 1"
  shows "uint (fifo_get_used_size fd) = (uint (write_index fd) - uint (read_index fd)) mod (2 * 2 ^ k)"
proof -
  let ?d = "(uint (write_index fd) - uint (read_index fd)) mod (2 * 2 ^ k)"
  have "?d < 2 * 2 ^ k" by simp
  then have "?d < 256"
    using pow2_le_128 [OF assms(1)] by linarith
  moreover have "0 \<le> ?d" by simp
  ultimately show ?thesis
    using assms by (simp only: fifo_get_used_size_def uint_mask8 int_and_pow2m1 uint_word_of_int_small)
qed

section \<open>The invariant of the indices\<close>

text \<open>
  Under \<open>index_inv\<close> the used size is \<open>fifo_count\<close>, full and empty are read off
  it, and a push or pull whose check passes keeps the invariant and changes the count by
  one.
\<close>

lemma index_inv_used:
  assumes "index_inv k fd"
  shows "uint (fifo_get_used_size fd) = int (fifo_count k fd)"
  using assms uint_used_size [of k fd] by (simp add: index_inv_def fifo_count_def)

lemma index_inv_count_le: "index_inv k fd \<Longrightarrow> fifo_count k fd \<le> 2 ^ k"
  by (simp add: index_inv_def fifo_count_def nat_le_iff)

lemma index_inv_full:
  assumes "index_inv k fd"
  shows "fifo_is_full fd \<longleftrightarrow> fifo_count k fd = 2 ^ k"
proof -
  have "fifo_is_full fd \<longleftrightarrow> uint (fifo_get_used_size fd) = uint (size_f fd)"
    by (simp add: fifo_is_full_def word_uint_eq_iff)
  also have "\<dots> \<longleftrightarrow> int (fifo_count k fd) = 2 ^ k"
    using assms by (simp add: index_inv_used) (simp add: index_inv_def uint_pow8)
  also have "\<dots> \<longleftrightarrow> fifo_count k fd = 2 ^ k"
    by (metis of_nat_eq_iff of_nat_numeral of_nat_power)
  finally show ?thesis .
qed

lemma mod_diff_zero_iff:
  fixes a b m :: int
  assumes "0 \<le> a" "a < m" "0 \<le> b" "b < m"
  shows "(a - b) mod m = 0 \<longleftrightarrow> a = b"
proof (cases "b \<le> a")
  case True
  then have "(a - b) mod m = a - b"
    using assms by (intro mod_pos_pos_trivial) auto
  then show ?thesis by simp
next
  case False
  then have "(a - b + m) mod m = a - b + m"
    using assms by (intro mod_pos_pos_trivial) auto
  then have "(a - b) mod m = a - b + m" by simp
  then show ?thesis using False assms by auto
qed

lemma index_inv_empty:
  assumes "index_inv k fd"
  shows "fifo_is_empty fd \<longleftrightarrow> fifo_count k fd = 0"
proof -
  have "fifo_is_empty fd \<longleftrightarrow> uint (write_index fd) = uint (read_index fd)"
    by (simp add: fifo_is_empty_def word_uint_eq_iff)
  also have "\<dots> \<longleftrightarrow> (uint (write_index fd) - uint (read_index fd)) mod (2 * 2 ^ k) = 0"
    using assms by (intro mod_diff_zero_iff [symmetric]) (simp_all add: index_inv_def)
  also have "\<dots> \<longleftrightarrow> fifo_count k fd = 0"
  proof -
    have "0 \<le> (uint (write_index fd) - uint (read_index fd)) mod (2 * 2 ^ k)" by simp
    then show ?thesis unfolding fifo_count_def by linarith
  qed
  finally show ?thesis .
qed

lemma mod_succ_diff:
  fixes w r m :: int
  assumes "0 < m" and "(w - r) mod m < m - 1"
  shows "((w + 1) mod m - r) mod m = (w - r) mod m + 1"
proof -
  have "((w + 1) mod m - r) mod m = ((w - r) mod m + 1) mod m"
    by (metis add.commute add_diff_eq diff_add_eq mod_add_left_eq mod_diff_left_eq)
  also have "\<dots> = (w - r) mod m + 1"
  proof (rule mod_pos_pos_trivial)
    have "0 \<le> (w - r) mod m" using assms(1) by simp
    then show "0 \<le> (w - r) mod m + 1" by linarith
    show "(w - r) mod m + 1 < m" using assms(2) by linarith
  qed
  finally show ?thesis .
qed

lemma mod_pred_diff:
  fixes w r m :: int
  assumes "0 < m" and "0 < (w - r) mod m"
  shows "(w - (r + 1) mod m) mod m = (w - r) mod m - 1"
proof -
  have "(w - (r + 1) mod m) mod m = ((w - r) mod m - 1) mod m"
    by (metis diff_diff_eq mod_diff_left_eq mod_diff_right_eq)
  also have "\<dots> = (w - r) mod m - 1"
  proof (rule mod_pos_pos_trivial)
    show "0 \<le> (w - r) mod m - 1" using assms(2) by linarith
    have "(w - r) mod m < m" using assms(1) by simp
    then show "(w - r) mod m - 1 < m" by linarith
  qed
  finally show ?thesis .
qed

lemma pow2_pos: "0 < (2 * 2 ^ k :: int)"
  by simp

lemma index_inv_push:
  assumes "index_inv k fd" and "\<not> fifo_is_full fd"
  shows "index_inv k (fifo_push_nocheck fd item)"
    and "fifo_count k (fifo_push_nocheck fd item) = Suc (fifo_count k fd)"
proof -
  let ?m = "2 * 2 ^ k :: int"
  let ?w = "uint (write_index fd)" and ?r = "uint (read_index fd)"
  from assms have k: "k \<le> 7" and mask: "mask_f fd = 2 * 2 ^ k - 1"
    by (simp_all add: index_inv_def)
  have lt: "fifo_count k fd < 2 ^ k"
    using assms index_inv_full [of k fd] index_inv_count_le [of k fd] by simp
  then have "(?w - ?r) mod ?m < 2 ^ k"
    by (simp add: fifo_count_def nat_less_iff)
  then have small: "(?w - ?r) mod ?m < ?m - 1"
    using one_le_power [of "2::int" k] by linarith
  have w': "uint (write_index (fifo_push_nocheck fd item)) = (?w + 1) mod ?m"
    using k mask by (simp add: fifo_push_nocheck_def uint_advance)
  have r': "read_index (fifo_push_nocheck fd item) = read_index fd"
    by (simp add: fifo_push_nocheck_def)
  have d: "(uint (write_index (fifo_push_nocheck fd item))
            - uint (read_index (fifo_push_nocheck fd item))) mod ?m = (?w - ?r) mod ?m + 1"
    unfolding w' r' using small by (intro mod_succ_diff) simp_all
  show "fifo_count k (fifo_push_nocheck fd item) = Suc (fifo_count k fd)"
    unfolding fifo_count_def d by (simp add: nat_add_distrib)
  have "uint (write_index (fifo_push_nocheck fd item)) < ?m"
    unfolding w' by simp
  moreover have "(uint (write_index (fifo_push_nocheck fd item))
            - uint (read_index (fifo_push_nocheck fd item))) mod ?m \<le> 2 ^ k"
    unfolding d using \<open>(?w - ?r) mod ?m < 2 ^ k\<close> by linarith
  moreover have "size_f (fifo_push_nocheck fd item) = size_f fd"
    and "mask_f (fifo_push_nocheck fd item) = mask_f fd"
    by (simp_all add: fifo_push_nocheck_def)
  ultimately show "index_inv k (fifo_push_nocheck fd item)"
    using assms(1) r' unfolding index_inv_def by simp
qed

lemma index_inv_pull:
  assumes "index_inv k fd" and "\<not> fifo_is_empty fd"
  shows "index_inv k (snd (fifo_pull_nocheck fd))"
    and "Suc (fifo_count k (snd (fifo_pull_nocheck fd))) = fifo_count k fd"
proof -
  let ?m = "2 * 2 ^ k :: int"
  let ?w = "uint (write_index fd)" and ?r = "uint (read_index fd)"
  let ?fd' = "snd (fifo_pull_nocheck fd)"
  from assms have k: "k \<le> 7" and mask: "mask_f fd = 2 * 2 ^ k - 1"
    by (simp_all add: index_inv_def)
  have "0 < fifo_count k fd"
    using assms index_inv_empty [of k fd] by simp
  then have pos: "0 < (?w - ?r) mod ?m"
    by (simp add: fifo_count_def)
  have r': "uint (read_index ?fd') = (?r + 1) mod ?m"
    using k mask by (simp add: fifo_pull_nocheck_def uint_advance)
  have w': "write_index ?fd' = write_index fd"
    by (simp add: fifo_pull_nocheck_def)
  have d: "(uint (write_index ?fd') - uint (read_index ?fd')) mod ?m = (?w - ?r) mod ?m - 1"
    unfolding w' r' using pos by (intro mod_pred_diff) simp_all
  show "Suc (fifo_count k ?fd') = fifo_count k fd"
    unfolding fifo_count_def d using pos by linarith
  have "uint (read_index ?fd') < ?m"
    unfolding r' by simp
  moreover have "(uint (write_index ?fd') - uint (read_index ?fd')) mod ?m \<le> 2 ^ k"
    unfolding d using assms(1) by (simp add: index_inv_def)
  moreover have "size_f ?fd' = size_f fd" and "mask_f ?fd' = mask_f fd"
    by (simp_all add: fifo_pull_nocheck_def)
  ultimately show "index_inv k ?fd'"
    using assms(1) w' unfolding index_inv_def by simp
qed

section \<open>The queued elements\<close>

text \<open>
  A push into a FIFO that is not full appends the stored item to \<open>fifo_items\<close>; a pull
  from a FIFO that is not empty delivers their first element and leaves the rest.
\<close>

lemma ring_items_cong:
  "r mod n = r' mod n \<Longrightarrow> ring_items buf n r c = ring_items buf n r' c"
proof (induction c arbitrary: r r')
  case 0
  show ?case by simp
next
  case (Suc c)
  from Suc.prems have "(r + 1) mod n = (r' + 1) mod n"
    by (rule mod_add_cong) simp
  then have "ring_items buf n (r + 1) c = ring_items buf n (r' + 1) c"
    by (rule Suc.IH)
  with Suc.prems show ?case by simp
qed

lemma ring_items_snoc:
  "ring_items buf n r (Suc c) = ring_items buf n r c @ [buf ! nat ((r + int c) mod n)]"
proof (induction c arbitrary: r)
  case 0
  show ?case by simp
next
  case (Suc c)
  have "ring_items buf n r (Suc (Suc c)) = buf ! nat (r mod n) # ring_items buf n (r + 1) (Suc c)"
    by simp
  also have "ring_items buf n (r + 1) (Suc c)
             = ring_items buf n (r + 1) c @ [buf ! nat ((r + 1 + int c) mod n)]"
    by (rule Suc.IH)
  finally show ?case by (simp add: ac_simps)
qed

lemma length_ring_items [simp]: "length (ring_items buf n r c) = c"
  by (induction c arbitrary: r) simp_all

lemma ring_items_update:
  assumes "\<forall>i<c. nat ((r + int i) mod n) \<noteq> j"
  shows "ring_items (buf[j := v]) n r c = ring_items buf n r c"
  using assms
proof (induction c arbitrary: r)
  case 0
  show ?case by simp
next
  case (Suc c)
  from Suc.prems have "nat ((r + int 0) mod n) \<noteq> j" by blast
  then have hd: "buf[j := v] ! nat (r mod n) = buf ! nat (r mod n)" by simp
  have "\<forall>i<c. nat ((r + 1 + int i) mod n) \<noteq> j"
  proof (intro allI impI)
    fix i assume "i < c"
    then have "nat ((r + int (Suc i)) mod n) \<noteq> j" using Suc.prems by auto
    then show "nat ((r + 1 + int i) mod n) \<noteq> j" by (simp add: ac_simps)
  qed
  then have "ring_items (buf[j := v]) n (r + 1) c = ring_items buf n (r + 1) c"
    by (rule Suc.IH)
  with hd show ?case by simp
qed

lemma mod_shift_neq:
  fixes r n :: int
  assumes "0 < n" "i < c" "int c < n"
  shows "(r + int i) mod n \<noteq> (r + int c) mod n"
proof
  assume "(r + int i) mod n = (r + int c) mod n"
  then have "n dvd (r + int c) - (r + int i)"
    by (metis mod_eq_dvd_iff)
  then have "n dvd int c - int i" by simp
  moreover have "0 < int c - int i" "int c - int i < n" using assms by linarith+
  ultimately show False using zdvd_not_zless by blast
qed

lemma ring_items_push:
  fixes r n :: int
  assumes "0 < n" "int c < n" "nat n \<le> length buf"
  shows "ring_items (buf[nat ((r + int c) mod n) := v]) n r (Suc c) = ring_items buf n r c @ [v]"
proof -
  let ?j = "nat ((r + int c) mod n)"
  have "(r + int c) mod n < n" and "0 \<le> (r + int c) mod n" using assms(1) by simp_all
  then have "?j < length buf" using assms(3) by linarith
  then have last: "buf[?j := v] ! ?j = v" by simp
  have "\<forall>i<c. nat ((r + int i) mod n) \<noteq> ?j"
  proof (intro allI impI)
    fix i assume "i < c"
    then have "(r + int i) mod n \<noteq> (r + int c) mod n"
      using assms by (intro mod_shift_neq) 
    moreover have "0 \<le> (r + int i) mod n" "0 \<le> (r + int c) mod n" using assms(1) by simp_all
    ultimately show "nat ((r + int i) mod n) \<noteq> ?j" by linarith
  qed
  then have "ring_items (buf[?j := v]) n r c = ring_items buf n r c"
    by (rule ring_items_update)
  with last show ?thesis by (simp only: ring_items_snoc)
qed

lemma length_fifo_items [simp]: "length (fifo_items k fd) = fifo_count k fd"
  by (simp add: fifo_items_def)

lemma write_slot:
  fixes w r :: int
  shows "(r + (w - r) mod (2 * 2 ^ k)) mod 2 ^ k = w mod 2 ^ k"
proof -
  have "(2 ^ k :: int) dvd 2 * 2 ^ k" by simp
  then have "((w - r) mod (2 * 2 ^ k)) mod 2 ^ k = (w - r) mod 2 ^ k"
    by (rule mod_mod_cancel)
  then have "(r + (w - r) mod (2 * 2 ^ k)) mod 2 ^ k = (r + (w - r)) mod 2 ^ k"
    by (metis mod_add_right_eq)
  then show ?thesis by simp
qed

lemma fifo_inv_push:
  assumes "fifo_inv k fd" and "\<not> fifo_is_full fd"
  shows "fifo_inv k (fifo_push_nocheck fd item)"
    and "fifo_items k (fifo_push_nocheck fd item) = fifo_items k fd @ [ucast item]"
proof -
  let ?w = "uint (write_index fd)" and ?r = "uint (read_index fd)"
  let ?c = "fifo_count k fd"
  from assms have inv: "index_inv k fd" and len: "2 ^ k \<le> length (buffer fd)"
    by (simp_all add: fifo_inv_def)
  from inv have k: "k \<le> 7" and mask: "mask_f fd = 2 * 2 ^ k - 1"
    by (simp_all add: index_inv_def)
  show "fifo_inv k (fifo_push_nocheck fd item)"
    using index_inv_push(1) [OF inv assms(2)] len
    by (simp add: fifo_inv_def) (simp add: fifo_push_nocheck_def)
  have c: "int ?c = (?w - ?r) mod (2 * 2 ^ k)"
    by (simp add: fifo_count_def)
  have lt: "?c < 2 ^ k"
    using assms(2) index_inv_full [OF inv] index_inv_count_le [OF inv] by simp
  have slot: "slot_of (write_index fd) (mask_f fd) = nat ((?r + int ?c) mod 2 ^ k)"
    unfolding c write_slot using k mask by (simp add: slot_of_mod)
  have "ring_items ((buffer fd)[nat ((?r + int ?c) mod 2 ^ k) := ucast item]) (2 ^ k) ?r (Suc ?c)
        = ring_items (buffer fd) (2 ^ k) ?r ?c @ [ucast item]"
  proof (rule ring_items_push)
    show "int ?c < 2 ^ k" using lt by (metis of_nat_less_iff of_nat_numeral of_nat_power)
    show "nat (2 ^ k) \<le> length (buffer fd)" using len by (simp add: nat_power_eq)
  qed simp
  then show "fifo_items k (fifo_push_nocheck fd item) = fifo_items k fd @ [ucast item]"
    unfolding fifo_items_def index_inv_push(2) [OF inv assms(2)]
    by (simp add: fifo_push_nocheck_def slot)
qed

lemma fifo_inv_pull:
  assumes "fifo_inv k fd" and "\<not> fifo_is_empty fd"
  shows "fifo_inv k (snd (fifo_pull_nocheck fd))"
    and "fifo_items k fd = fst (fifo_pull_nocheck fd) # fifo_items k (snd (fifo_pull_nocheck fd))"
proof -
  let ?w = "uint (write_index fd)" and ?r = "uint (read_index fd)"
  let ?fd' = "snd (fifo_pull_nocheck fd)"
  from assms have inv: "index_inv k fd" and len: "2 ^ k \<le> length (buffer fd)"
    by (simp_all add: fifo_inv_def)
  from inv have k: "k \<le> 7" and mask: "mask_f fd = 2 * 2 ^ k - 1"
    by (simp_all add: index_inv_def)
  show "fifo_inv k ?fd'"
    using index_inv_pull(1) [OF inv assms(2)] len
    by (simp add: fifo_inv_def) (simp add: fifo_pull_nocheck_def)
  have c: "fifo_count k fd = Suc (fifo_count k ?fd')"
    using index_inv_pull(2) [OF inv assms(2)] by simp
  have r': "uint (read_index ?fd') = (?r + 1) mod (2 * 2 ^ k)"
    using k mask by (simp add: fifo_pull_nocheck_def uint_advance)
  have "((?r + 1) mod (2 * 2 ^ k)) mod 2 ^ k = (?r + 1) mod 2 ^ k"
    by (rule mod_mod_cancel) simp
  then have "ring_items (buffer fd) (2 ^ k) ((?r + 1) mod (2 * 2 ^ k)) (fifo_count k ?fd')
        = ring_items (buffer fd) (2 ^ k) (?r + 1) (fifo_count k ?fd')"
    by (rule ring_items_cong)
  moreover have "buffer ?fd' = buffer fd"
    by (simp add: fifo_pull_nocheck_def)
  moreover have "fst (fifo_pull_nocheck fd) = buffer fd ! nat (?r mod 2 ^ k)"
    using k mask by (simp add: fifo_pull_nocheck_def slot_of_mod)
  ultimately show "fifo_items k fd = fst (fifo_pull_nocheck fd) # fifo_items k ?fd'"
    unfolding fifo_items_def c r' by simp
qed

section \<open>The driver refines the bounded queue\<close>

lemma fifo_uint8_generic: "fifo_uint8 = fifo_generic"
  by (simp add: fifo_uint8_def fifo_generic_def fun_eq_iff Let_def
      fifo_push_uint8_def fifo_push_uint8_nocheck_def fifo_pull_uint8_def
      fifo_pull_uint8_nocheck_def fifo_push_def fifo_push_nocheck_def fifo_pull_def
      fifo_pull_nocheck_def)

lemma fifo_uint16_generic: "fifo_uint16 = fifo_generic"
  by (simp add: fifo_uint16_def fifo_generic_def fun_eq_iff Let_def
      fifo_push_uint16_def fifo_push_uint16_nocheck_def fifo_pull_uint16_def
      fifo_pull_uint16_nocheck_def fifo_push_def fifo_push_nocheck_def fifo_pull_def
      fifo_pull_nocheck_def)

lemma fifo_uint32_generic: "fifo_uint32 = fifo_generic"
  by (simp add: fifo_uint32_def fifo_generic_def fun_eq_iff Let_def
      fifo_push_uint32_def fifo_push_uint32_nocheck_def fifo_pull_uint32_def
      fifo_pull_uint32_nocheck_def fifo_push_def fifo_push_nocheck_def fifo_pull_def
      fifo_pull_nocheck_def)

lemma slot_of_in_range:
  assumes "fifo_inv k fd"
  shows "slot_of i (mask_f fd) < length (buffer fd)"
proof -
  from assms have k: "k \<le> 7" and mask: "mask_f fd = 2 * 2 ^ k - 1"
    and len: "2 ^ k \<le> length (buffer fd)"
    by (simp_all add: fifo_inv_def index_inv_def)
  have "uint i mod 2 ^ k < 2 ^ k" by simp
  then have "nat (uint i mod 2 ^ k) < 2 ^ k"
    by (simp add: nat_less_iff)
  also note len
  finally show ?thesis using k mask by (simp only: slot_of_mod)
qed

lemma fifo_step_sim:
  assumes "fifo_inv k fd"
  shows "queue_step (2 ^ k) (fifo_items k fd, cell) (map_fifo_op ucast c)
         = map_option (\<lambda>(e, fd', cell'). (e, fifo_items k fd', cell'))
             (fifo_step fifo_generic (fd, cell) c)"
    and "fifo_step fifo_generic (fd, cell) c = Some (e, fd', cell') \<Longrightarrow> fifo_inv k fd'"
proof -
  from assms have inv: "index_inv k fd" by (simp add: fifo_inv_def)
  note full = index_inv_full [OF inv] and empty = index_inv_empty [OF inv]
    and le = index_inv_count_le [OF inv]
  have full': "fifo_is_full fd \<longleftrightarrow> 2 ^ k \<le> fifo_count k fd"
    using full le by auto
  have nil: "fifo_is_empty fd \<longleftrightarrow> fifo_items k fd = []"
    using empty by (metis length_0_conv length_fifo_items)
  show "queue_step (2 ^ k) (fifo_items k fd, cell) (map_fifo_op ucast c)
         = map_option (\<lambda>(e, fd', cell'). (e, fifo_items k fd', cell'))
             (fifo_step fifo_generic (fd, cell) c)"
  proof (cases c)
    case (Push v)
    then show ?thesis
      using fifo_inv_push(2) [OF assms]
      by (simp add: fifo_generic_def fifo_push_def full')
  next
    case Pull
    then show ?thesis
      using fifo_inv_pull(2) [OF assms]
      by (cases "fifo_is_empty fd")
         (auto simp: fifo_generic_def fifo_pull_def nil split: prod.splits)
  next
    case (Push_nocheck v)
    then show ?thesis
      using fifo_inv_push(2) [OF assms]
      by (simp add: fifo_generic_def full')
  next
    case Pull_nocheck
    then show ?thesis
      using fifo_inv_pull(2) [OF assms]
      by (cases "fifo_is_empty fd")
         (auto simp: fifo_generic_def nil split: prod.splits)
  qed
  show "fifo_step fifo_generic (fd, cell) c = Some (e, fd', cell') \<Longrightarrow> fifo_inv k fd'"
    using fifo_inv_push(1) [OF assms] fifo_inv_pull(1) [OF assms] assms
    by (cases c) (auto simp: fifo_generic_def fifo_push_def fifo_pull_def
        split: if_splits prod.splits)
qed

lemma fifo_run_sim:
  assumes "fifo_inv k fd"
  shows "queue_run (2 ^ k) (fifo_items k fd, cell) (map (map_fifo_op ucast) cs)
         = map_option (\<lambda>(es, fd', cell'). (es, fifo_items k fd', cell'))
             (fifo_run fifo_generic (fd, cell) cs)"
  using assms
proof (induction cs arbitrary: fd cell)
  case Nil
  show ?case by (simp add: queue_run_def fifo_run_def)
next
  case (Cons c cs)
  show ?case
  proof (cases "fifo_step fifo_generic (fd, cell) c")
    case None
    then show ?thesis
      using fifo_step_sim(1) [OF Cons.prems, of cell c]
      by (simp add: queue_run_def fifo_run_def)
  next
    case (Some a)
    obtain e fd' cell' where a: "a = (e, fd', cell')" by (cases a)
    have inv': "fifo_inv k fd'"
      using fifo_step_sim(2) [OF Cons.prems] Some a by simp
    have "queue_step (2 ^ k) (fifo_items k fd, cell) (map_fifo_op ucast c)
          = Some (e, fifo_items k fd', cell')"
      using fifo_step_sim(1) [OF Cons.prems, of cell c] Some a by simp
    then show ?thesis
      using Cons.IH [OF inv', of cell'] Some a
      by (simp add: queue_run_def fifo_run_def split: option.splits)
  qed
qed

lemma fifo_step_index_inv:
  assumes "index_inv k fd" and "fifo_step fifo_generic (fd, cell) c = Some (e, fd', cell')"
  shows "index_inv k fd'"
  using index_inv_push(1) [OF assms(1)] index_inv_pull(1) [OF assms(1)] assms
  by (cases c) (auto simp: fifo_generic_def fifo_push_def fifo_pull_def
        split: if_splits prod.splits)

lemma fifo_run_index_inv:
  assumes "index_inv k fd" and "fifo_run fifo_generic (fd, cell) cs = Some (es, fd', cell')"
  shows "index_inv k fd'"
  using assms
proof (induction cs arbitrary: fd cell es)
  case Nil
  then show ?case by (simp add: fifo_run_def)
next
  case (Cons c cs)
  from Cons.prems(2) obtain e fd1 cell1 es1
    where step: "fifo_step fifo_generic (fd, cell) c = Some (e, fd1, cell1)"
      and run: "fifo_run fifo_generic (fd1, cell1) cs = Some (es1, fd', cell')"
    by (auto simp: fifo_run_def split: option.splits)
  from Cons.prems(1) step have "index_inv k fd1" by (rule fifo_step_index_inv)
  then show ?case using run by (rule Cons.IH)
qed

section \<open>The freshly initialised descriptor\<close>

lemma nat_le_7_cases:
  assumes "k \<le> (7::nat)"
  shows "k = 0 \<or> k = 1 \<or> k = 2 \<or> k = 3 \<or> k = 4 \<or> k = 5 \<or> k = 6 \<or> k = 7"
  using assms by linarith

lemma pow2_word8_valid:
  assumes "k \<le> 7"
  shows "(2 ^ k :: 8 word) \<in> set [1, 2, 4, 8, 16, 32, 64, 128]"
  using nat_le_7_cases [OF assms] by (elim disjE) simp_all

lemma valid_word8_pow2:
  assumes "(sz :: 8 word) \<in> set [1, 2, 4, 8, 16, 32, 64, 128]"
  shows "\<exists>k\<le>7. sz = 2 ^ k"
proof -
  have p: "(1 :: 8 word) = 2 ^ 0" "(2 :: 8 word) = 2 ^ 1" "(4 :: 8 word) = 2 ^ 2"
    "(8 :: 8 word) = 2 ^ 3" "(16 :: 8 word) = 2 ^ 4" "(32 :: 8 word) = 2 ^ 5"
    "(64 :: 8 word) = 2 ^ 6" "(128 :: 8 word) = 2 ^ 7"
    by simp_all
  from assms consider "sz = 2 ^ 0" | "sz = 2 ^ 1" | "sz = 2 ^ 2" | "sz = 2 ^ 3" | "sz = 2 ^ 4"
    | "sz = 2 ^ 5" | "sz = 2 ^ 6" | "sz = 2 ^ 7"
    unfolding p [symmetric] by auto
  then show ?thesis
  proof cases
    case 1 then show ?thesis by (intro exI [of _ 0]) simp
  next
    case 2 then show ?thesis by (intro exI [of _ 1]) simp
  next
    case 3 then show ?thesis by (intro exI [of _ 2]) simp
  next
    case 4 then show ?thesis by (intro exI [of _ 3]) simp
  next
    case 5 then show ?thesis by (intro exI [of _ 4]) simp
  next
    case 6 then show ?thesis by (intro exI [of _ 5]) simp
  next
    case 7 then show ?thesis by (intro exI [of _ 6]) simp
  next
    case 8 then show ?thesis by (intro exI [of _ 7]) simp
  qed
qed

lemma uint_pow2_word8:
  assumes "uint (sz :: 8 word) = 2 ^ k"
  shows "k \<le> 7 \<and> sz = 2 ^ k"
proof -
  have "uint sz < 2 ^ 8" using uint_lt2p [of sz] by simp
  then have "(2 :: int) ^ k < 2 ^ 8" using assms by simp
  then have "k < 8" by (simp only: power_strict_increasing_iff [of "2::int"]) 
  then have k: "k \<le> 7" by simp
  have "sz = word_of_int (uint sz)" by simp
  also have "\<dots> = 2 ^ k" unfolding assms by simp
  finally show ?thesis using k by simp
qed

lemma valid_capacity_iff:
  "(sz :: 8 word) \<in> set [1, 2, 4, 8, 16, 32, 64, 128] \<longleftrightarrow> (\<exists>k. uint sz = 2 ^ k)"
proof
  assume "sz \<in> set [1, 2, 4, 8, 16, 32, 64, 128]"
  then obtain k where "k \<le> 7" "sz = 2 ^ k" using valid_word8_pow2 by blast
  then have "uint sz = 2 ^ k" by (simp add: uint_pow8)
  then show "\<exists>k. uint sz = 2 ^ k" ..
next
  assume "\<exists>k. uint sz = 2 ^ k"
  then obtain k where "uint sz = 2 ^ k" ..
  then have "k \<le> 7" "sz = 2 ^ k" using uint_pow2_word8 by blast+
  then show "sz \<in> set [1, 2, 4, 8, 16, 32, 64, 128]" using pow2_word8_valid by blast
qed

lemma fifo_init_pow2:
  assumes "k \<le> 7"
  shows "fifo_init fd buf (2 ^ k)
         = (FIFO_OK, \<lparr>buffer = buf, read_index = 0, write_index = 0,
                       size_f = 2 ^ k, mask_f = 2 * 2 ^ k - 1\<rparr>)"
  using pow2_word8_valid [OF assms] by (simp only: fifo_init_def if_True)

lemma fresh_index_inv:
  assumes "k \<le> 7"
  shows "index_inv k (snd (fifo_init fd buf (2 ^ k)))"
  using assms by (simp add: fifo_init_pow2 index_inv_def)

lemma fresh_fifo_inv:
  assumes "k \<le> 7" and "2 ^ k \<le> length buf"
  shows "fifo_inv k (snd (fifo_init fd buf (2 ^ k)))"
  using assms fresh_index_inv [OF assms(1), of fd buf]
  by (simp add: fifo_inv_def) (simp add: fifo_init_pow2)

lemma fresh_items:
  assumes "k \<le> 7"
  shows "fifo_items k (snd (fifo_init fd buf (2 ^ k))) = []"
  using assms by (simp add: fifo_init_pow2 fifo_items_def fifo_count_def)

section \<open>Occupancy in a state that satisfies the invariant\<close>

lemma occupancy_generic:
  assumes "index_inv k s"
  shows "uint (fifo_get_used_size s)
         = (uint (write_index s) - uint (read_index s)) mod (2 * 2 ^ k)
       \<and> 0 \<le> uint (fifo_get_used_size s) \<and> uint (fifo_get_used_size s) \<le> 2 ^ k
       \<and> uint (fifo_get_used_size s) + uint (fifo_get_free_size s) = 2 ^ k"
proof -
  from assms have k: "k \<le> 7" and mask: "mask_f s = 2 * 2 ^ k - 1" and sz: "size_f s = 2 ^ k"
    and le: "(uint (write_index s) - uint (read_index s)) mod (2 * 2 ^ k) \<le> 2 ^ k"
    by (simp_all add: index_inv_def)
  have used: "uint (fifo_get_used_size s)
         = (uint (write_index s) - uint (read_index s)) mod (2 * 2 ^ k)"
    using k mask by (rule uint_used_size)
  have ule: "uint (fifo_get_used_size s) \<le> 2 ^ k"
    unfolding used by (rule le)
  let ?f = "2 ^ k - uint (fifo_get_used_size s)"
  have "0 \<le> ?f" using ule by simp
  moreover have "?f < 256" using pow2_le_128 [OF k] uint_ge_0 [of "fifo_get_used_size s"] by linarith
  ultimately have "uint (fifo_get_free_size s) = ?f"
    using k by (simp only: fifo_get_free_size_def sz uint_pow8 uint_word_of_int_small)
  then show ?thesis using used ule by simp
qed

lemma empty_full_generic:
  assumes "index_inv k s"
  shows "(fifo_is_empty s \<longleftrightarrow> fifo_get_used_size s = 0)
       \<and> (fifo_is_empty s \<longleftrightarrow> read_index s = write_index s)
       \<and> (fifo_is_full s \<longleftrightarrow> uint (fifo_get_used_size s) = 2 ^ k)
       \<and> \<not> (fifo_is_empty s \<and> fifo_is_full s)"
proof -
  have u: "uint (fifo_get_used_size s) = int (fifo_count k s)"
    using assms by (rule index_inv_used)
  have "fifo_get_used_size s = 0 \<longleftrightarrow> uint (fifo_get_used_size s) = 0"
    by (simp add: word_uint_eq_iff)
  then have e: "fifo_is_empty s \<longleftrightarrow> fifo_get_used_size s = 0"
    using index_inv_empty [OF assms] u by simp
  have "int (fifo_count k s) = 2 ^ k \<longleftrightarrow> fifo_count k s = 2 ^ k"
    by (metis of_nat_eq_iff of_nat_numeral of_nat_power)
  then have f: "fifo_is_full s \<longleftrightarrow> uint (fifo_get_used_size s) = 2 ^ k"
    using index_inv_full [OF assms] u by simp
  have "(2 :: nat) ^ k \<noteq> 0" by simp
  then have "\<not> (fifo_is_empty s \<and> fifo_is_full s)"
    unfolding index_inv_empty [OF assms] index_inv_full [OF assms] by metis
  with e f show ?thesis by (auto simp: fifo_is_empty_def)
qed

lemma reachable_index_inv:
  assumes "k \<le> 7"
    and "fifo_run fifo_generic (snd (fifo_init fd buf (2 ^ k)), c) ops = Some (es, s, c')"
  shows "index_inv k s"
  using fresh_index_inv [OF assms(1)] assms(2) by (rule fifo_run_index_inv)

section \<open>Runs of the bounded queue\<close>

text \<open>
  What the bounded queue returns for the sequences the claims name (fill, overflow,
  drain, underflow), and how a run of the queue is carried over to a run of the driver.
\<close>

lemma run_ops_append:
  "run_ops step s (xs @ ys) =
     (case run_ops step s xs of
        None \<Rightarrow> None
      | Some (rs, s') \<Rightarrow>
          (case run_ops step s' ys of
             None \<Rightarrow> None
           | Some (rs', s'') \<Rightarrow> Some (rs @ rs', s'')))"
  by (induction xs arbitrary: s) (auto split: option.splits)

lemma run_ops_append_Some:
  assumes "run_ops step s xs = Some (rs, s')" and "run_ops step s' ys = Some (rs', s'')"
  shows "run_ops step s (xs @ ys) = Some (rs @ rs', s'')"
  using assms by (simp add: run_ops_append)

lemma queue_run_pushes:
  assumes "length q + length vs \<le> n"
  shows "queue_run n (q, c) (map Push vs)
         = Some (replicate (length vs) (Push_returned FIFO_OK), q @ vs, c)"
  using assms
proof (induction vs arbitrary: q)
  case Nil
  show ?case by (simp add: queue_run_def)
next
  case (Cons v vs)
  from Cons.prems have "length (q @ [v]) + length vs \<le> n" by simp
  then have "queue_run n (q @ [v], c) (map Push vs)
         = Some (replicate (length vs) (Push_returned FIFO_OK), (q @ [v]) @ vs, c)"
    by (rule Cons.IH)
  moreover have "\<not> n \<le> length q" using Cons.prems by simp
  ultimately show ?case by (simp add: queue_run_def)
qed

lemma queue_run_pulls:
  assumes "j \<le> length q"
  shows "queue_run n (q, c) (replicate j Pull)
         = Some (map (Pull_returned FIFO_OK) (take j q), drop j q, last (c # take j q))"
  using assms
proof (induction j arbitrary: q c)
  case 0
  show ?case by (simp add: queue_run_def)
next
  case (Suc j)
  then obtain x q' where q: "q = x # q'" by (cases q) auto
  with Suc.prems have "j \<le> length q'" by simp
  then have "queue_run n (q', x) (replicate j Pull)
         = Some (map (Pull_returned FIFO_OK) (take j q'), drop j q', last (x # take j q'))"
    by (rule Suc.IH)
  then show ?case by (simp add: queue_run_def q)
qed

lemma queue_run_push_full:
  assumes "n \<le> length q"
  shows "queue_run n (q, c) [Push v] = Some ([Push_returned FIFO_ERROR_OVERFLOW], q, c)"
  using assms by (simp add: queue_run_def)

lemma queue_run_pull_empty:
  "queue_run n ([], c) [Pull] = Some ([Pull_returned FIFO_ERROR_UNDERFLOW c], [], c)"
  by (simp add: queue_run_def)

lemma fifo_run_sim_Some:
  assumes "fifo_inv k fd"
    and "queue_run (2 ^ k) (fifo_items k fd, c) (map (map_fifo_op ucast) ops) = Some (es, q, c')"
  shows "\<exists>s. fifo_run fifo_generic (fd, c) ops = Some (es, s, c') \<and> fifo_items k s = q"
proof (cases "fifo_run fifo_generic (fd, c) ops")
  case None
  then show ?thesis using fifo_run_sim [OF assms(1), of c ops] assms(2) by simp
next
  case (Some a)
  obtain es1 s c1 where a: "a = (es1, s, c1)" by (cases a)
  show ?thesis using fifo_run_sim [OF assms(1), of c ops] assms(2) Some a by simp
qed

lemma fifo_run_fifo_inv:
  assumes "fifo_inv k fd" and "fifo_run fifo_generic (fd, cell) cs = Some (es, fd', cell')"
  shows "fifo_inv k fd'"
  using assms
proof (induction cs arbitrary: fd cell es)
  case Nil
  then show ?case by (simp add: fifo_run_def)
next
  case (Cons c cs)
  from Cons.prems(2) obtain e fd1 cell1 es1
    where step: "fifo_step fifo_generic (fd, cell) c = Some (e, fd1, cell1)"
      and run: "fifo_run fifo_generic (fd1, cell1) cs = Some (es1, fd', cell')"
    by (auto simp: fifo_run_def split: option.splits)
  from Cons.prems(1) step have "fifo_inv k fd1" by (rule fifo_step_sim(2))
  then show ?case using run by (rule Cons.IH)
qed

lemma fifo_inv_full_items:
  assumes "fifo_inv k s"
  shows "fifo_is_full s \<longleftrightarrow> length (fifo_items k s) = 2 ^ k"
  using assms index_inv_full [of k s] by (simp add: fifo_inv_def)

lemma fifo_inv_empty_items:
  assumes "fifo_inv k s"
  shows "fifo_is_empty s \<longleftrightarrow> fifo_items k s = []"
proof -
  have "fifo_items k s = [] \<longleftrightarrow> fifo_count k s = 0"
    by (metis length_0_conv length_fifo_items)
  then show ?thesis using assms index_inv_empty [of k s] by (simp add: fifo_inv_def)
qed

lemma queue_run_append_Some:
  assumes "queue_run n s xs = Some (rs, s')" and "queue_run n s' ys = Some (rs', s'')"
  shows "queue_run n s (xs @ ys) = Some (rs @ rs', s'')"
  using assms unfolding queue_run_def by (rule run_ops_append_Some)

lemma queue_fill_drain:
  assumes "length q = n" and "0 < n"
  shows "queue_run n ([], c) (map Push q @ [Push x] @ replicate n Pull @ [Pull])
         = Some (replicate n (Push_returned FIFO_OK) @ [Push_returned FIFO_ERROR_OVERFLOW]
                 @ map (Pull_returned FIFO_OK) q @ [Pull_returned FIFO_ERROR_UNDERFLOW (last q)],
                 [], last q)"
proof -
  from assms have ne: "q \<noteq> []" by auto
  have 1: "queue_run n ([], c) (map Push q) = Some (replicate n (Push_returned FIFO_OK), q, c)"
    using queue_run_pushes [of "[]" q n c] assms(1) by simp
  have 2: "queue_run n (q, c) [Push x] = Some ([Push_returned FIFO_ERROR_OVERFLOW], q, c)"
    using assms(1) by (intro queue_run_push_full) simp
  have 3: "queue_run n (q, c) (replicate n Pull)
           = Some (map (Pull_returned FIFO_OK) q, [], last q)"
    using queue_run_pulls [of n q n c] assms(1) ne by simp
  have 4: "queue_run n ([], last q) [Pull]
           = Some ([Pull_returned FIFO_ERROR_UNDERFLOW (last q)], [], last q)"
    by (rule queue_run_pull_empty)
  from queue_run_append_Some [OF 3 4] have 34: "queue_run n (q, c) (replicate n Pull @ [Pull])
     = Some (map (Pull_returned FIFO_OK) q @ [Pull_returned FIFO_ERROR_UNDERFLOW (last q)], [], last q)" .
  from queue_run_append_Some [OF 2 34] have 234: "queue_run n (q, c) ([Push x] @ replicate n Pull @ [Pull])
     = Some ([Push_returned FIFO_ERROR_OVERFLOW] @ map (Pull_returned FIFO_OK) q
             @ [Pull_returned FIFO_ERROR_UNDERFLOW (last q)], [], last q)" .
  from queue_run_append_Some [OF 1 234] show ?thesis .
qed

lemma queue_fill_partly:
  assumes "j \<le> length q" and "length q = n"
  shows "queue_run n ([], c) (map Push (take j q))
         = Some (replicate j (Push_returned FIFO_OK), take j q, c)"
  using queue_run_pushes [of "[]" "take j q" n c] assms by simp

lemma queue_drain_partly:
  assumes "j \<le> length q" and "length q = n"
  shows "queue_run n ([], c) (map Push q @ Push x # replicate j Pull)
         = Some (replicate n (Push_returned FIFO_OK) @ Push_returned FIFO_ERROR_OVERFLOW
                 # map (Pull_returned FIFO_OK) (take j q), drop j q, last (c # take j q))"
proof -
  have 1: "queue_run n ([], c) (map Push q) = Some (replicate n (Push_returned FIFO_OK), q, c)"
    using queue_run_pushes [of "[]" q n c] assms(2) by simp
  have 2: "queue_run n (q, c) [Push x] = Some ([Push_returned FIFO_ERROR_OVERFLOW], q, c)"
    using assms(2) by (intro queue_run_push_full) simp
  have 3: "queue_run n (q, c) (replicate j Pull)
           = Some (map (Pull_returned FIFO_OK) (take j q), drop j q, last (c # take j q))"
    using assms(1) by (rule queue_run_pulls)
  from queue_run_append_Some [OF 2 3] have 23: "queue_run n (q, c) ([Push x] @ replicate j Pull)
     = Some ([Push_returned FIFO_ERROR_OVERFLOW] @ map (Pull_returned FIFO_OK) (take j q),
             drop j q, last (c # take j q))" .
  from queue_run_append_Some [OF 1 23] show ?thesis by simp
qed

lemma full_capacity_events:
  fixes buf :: "'a::len word list"
  assumes "k \<le> 7" and "length vs = 2 ^ k" and "2 ^ k \<le> length buf"
  shows "map_option fst (fifo_run fifo_generic (snd (fifo_init fd buf (2 ^ k)), c)
           (map Push vs @ [Push x] @ replicate (2 ^ k) Pull @ [Pull]))
         = Some (replicate (2 ^ k) (Push_returned FIFO_OK) @ [Push_returned FIFO_ERROR_OVERFLOW]
                 @ map (\<lambda>v. Pull_returned FIFO_OK (ucast v)) vs
                 @ [Pull_returned FIFO_ERROR_UNDERFLOW (ucast (last vs))])"
proof -
  let ?s0 = "snd (fifo_init fd buf (2 ^ k))"
  let ?q = "map ucast vs :: 'a word list"
  have inv: "fifo_inv k ?s0" using assms(1,3) by (rule fresh_fifo_inv)
  have items: "fifo_items k ?s0 = []" using assms(1) by (rule fresh_items)
  from assms(2) have ne: "vs \<noteq> []" by auto
  have "queue_run (2 ^ k) ([], c) (map Push ?q @ [Push (ucast x)] @ replicate (2 ^ k) Pull @ [Pull])
         = Some (replicate (2 ^ k) (Push_returned FIFO_OK) @ [Push_returned FIFO_ERROR_OVERFLOW]
                 @ map (Pull_returned FIFO_OK) ?q @ [Pull_returned FIFO_ERROR_UNDERFLOW (last ?q)],
                 [], last ?q)"
    using assms(2) by (intro queue_fill_drain) simp_all
  then have "queue_run (2 ^ k) (fifo_items k ?s0, c)
           (map (map_fifo_op ucast) (map Push vs @ [Push x] @ replicate (2 ^ k) Pull @ [Pull]))
         = Some (replicate (2 ^ k) (Push_returned FIFO_OK) @ [Push_returned FIFO_ERROR_OVERFLOW]
                 @ map (\<lambda>v. Pull_returned FIFO_OK (ucast v)) vs
                 @ [Pull_returned FIFO_ERROR_UNDERFLOW (ucast (last vs))],
                 [], ucast (last vs))"
    using ne by (simp add: items last_map comp_def)
  from fifo_run_sim_Some [OF inv this] show ?thesis by auto
qed

lemma full_capacity_full:
  fixes buf :: "'a::len word list"
  assumes "k \<le> 7" and "length vs = 2 ^ k" and "2 ^ k \<le> length buf" and "j \<le> 2 ^ k"
  shows "\<exists>es s c'. fifo_run fifo_generic (snd (fifo_init fd buf (2 ^ k)), c)
            (map Push (take j vs)) = Some (es, s, c') \<and> (fifo_is_full s \<longleftrightarrow> j = 2 ^ k)"
proof -
  let ?s0 = "snd (fifo_init fd buf (2 ^ k))"
  let ?q = "map ucast vs :: 'a word list"
  have inv: "fifo_inv k ?s0" using assms(1,3) by (rule fresh_fifo_inv)
  have items: "fifo_items k ?s0 = []" using assms(1) by (rule fresh_items)
  have "queue_run (2 ^ k) ([], c) (map Push (take j ?q))
         = Some (replicate j (Push_returned FIFO_OK), take j ?q, c)"
    using assms(2,4) by (intro queue_fill_partly) simp_all
  then have "queue_run (2 ^ k) (fifo_items k ?s0, c) (map (map_fifo_op ucast) (map Push (take j vs)))
         = Some (replicate j (Push_returned FIFO_OK), take j ?q, c)"
    by (simp add: items take_map comp_def)
  from fifo_run_sim_Some [OF inv this] obtain s
    where run: "fifo_run fifo_generic (?s0, c) (map Push (take j vs))
                = Some (replicate j (Push_returned FIFO_OK), s, c)"
      and q: "fifo_items k s = take j ?q" by blast
  from inv run have "fifo_inv k s" by (rule fifo_run_fifo_inv)
  then have "fifo_is_full s \<longleftrightarrow> length (fifo_items k s) = 2 ^ k" by (rule fifo_inv_full_items)
  also have "\<dots> \<longleftrightarrow> j = 2 ^ k"
    unfolding q using assms(2,4) by simp
  finally show ?thesis using run by blast
qed

lemma full_capacity_empty:
  fixes buf :: "'a::len word list"
  assumes "k \<le> 7" and "length vs = 2 ^ k" and "2 ^ k \<le> length buf" and "j \<le> 2 ^ k"
  shows "\<exists>es s c'. fifo_run fifo_generic (snd (fifo_init fd buf (2 ^ k)), c)
            (map Push vs @ Push x # replicate j Pull) = Some (es, s, c')
            \<and> (fifo_is_empty s \<longleftrightarrow> j = 2 ^ k)"
proof -
  let ?s0 = "snd (fifo_init fd buf (2 ^ k))"
  let ?q = "map ucast vs :: 'a word list"
  have inv: "fifo_inv k ?s0" using assms(1,3) by (rule fresh_fifo_inv)
  have items: "fifo_items k ?s0 = []" using assms(1) by (rule fresh_items)
  have "queue_run (2 ^ k) ([], c) (map Push ?q @ Push (ucast x) # replicate j Pull)
         = Some (replicate (2 ^ k) (Push_returned FIFO_OK) @ Push_returned FIFO_ERROR_OVERFLOW
                 # map (Pull_returned FIFO_OK) (take j ?q), drop j ?q, last (c # take j ?q))"
    using assms(2,4) by (intro queue_drain_partly) simp_all
  then have "queue_run (2 ^ k) (fifo_items k ?s0, c)
           (map (map_fifo_op ucast) (map Push vs @ Push x # replicate j Pull))
         = Some (replicate (2 ^ k) (Push_returned FIFO_OK) @ Push_returned FIFO_ERROR_OVERFLOW
                 # map (Pull_returned FIFO_OK) (take j ?q), drop j ?q, last (c # take j ?q))"
    by (simp add: items comp_def)
  from fifo_run_sim_Some [OF inv this] obtain es s c'
    where run: "fifo_run fifo_generic (?s0, c) (map Push vs @ Push x # replicate j Pull)
                = Some (es, s, c')"
      and q: "fifo_items k s = drop j ?q" by blast
  from inv run have "fifo_inv k s" by (rule fifo_run_fifo_inv)
  then have "fifo_is_empty s \<longleftrightarrow> fifo_items k s = []" by (rule fifo_inv_empty_items)
  also have "\<dots> \<longleftrightarrow> j = 2 ^ k"
    unfolding q using assms(2,4) by auto
  finally show ?thesis using run by blast
qed

lemma queue_refinement_generic:
  fixes buf :: "'a::len word list"
  assumes "k \<le> 7" and "2 ^ k \<le> length buf"
  shows "map_option fst (fifo_run fifo_generic (snd (fifo_init fd buf (2 ^ k)), c) ops)
         = map_option fst (queue_run (2 ^ k) ([], c) (map (map_fifo_op ucast) ops))"
proof -
  let ?s0 = "snd (fifo_init fd buf (2 ^ k))"
  have inv: "fifo_inv k ?s0" using assms by (rule fresh_fifo_inv)
  have items: "fifo_items k ?s0 = []" using assms(1) by (rule fresh_items)
  have "queue_run (2 ^ k) ([], c) (map (map_fifo_op ucast) ops)
         = map_option (\<lambda>(es, fd', cell'). (es, fifo_items k fd', cell'))
             (fifo_run fifo_generic (?s0, c) ops)"
    using fifo_run_sim [OF inv, of c ops] by (simp only: items)
  then show ?thesis
    by (cases "fifo_run fifo_generic (?s0, c) ops") auto
qed

lemma queue_push_then_drain:
  assumes "length q < n"
  shows "queue_run n (q, c) (Push v # replicate (Suc (length q)) Pull)
         = Some (Push_returned FIFO_OK # map (Pull_returned FIFO_OK) (q @ [v]), [], v)"
proof -
  have 1: "queue_run n (q, c) [Push v] = Some ([Push_returned FIFO_OK], q @ [v], c)"
    using assms by (simp add: queue_run_def)
  have 2: "queue_run n (q @ [v], c) (replicate (Suc (length q)) Pull)
           = Some (map (Pull_returned FIFO_OK) (q @ [v]), [], v)"
    using queue_run_pulls [of "Suc (length q)" "q @ [v]" n c] by simp
  from queue_run_append_Some [OF 1 2] show ?thesis by simp
qed

lemma round_trip_generic:
  fixes buf :: "'a::len word list"
  assumes "k \<le> 7" and "2 ^ k \<le> length buf"
    and "fifo_run fifo_generic (snd (fifo_init fd buf (2 ^ k)), c) ops = Some (es, s, c')"
    and "\<not> fifo_is_full s"
  shows "\<exists>es' s'. fifo_run fifo_generic (s, c')
            (Push v # replicate (Suc (unat (fifo_get_used_size s))) Pull) = Some (es', s', ucast v)
          \<and> last es' = Pull_returned FIFO_OK (ucast v)"
proof -
  let ?q = "fifo_items k s"
  have "fifo_inv k (snd (fifo_init fd buf (2 ^ k)))" using assms(1,2) by (rule fresh_fifo_inv)
  then have inv: "fifo_inv k s" using assms(3) by (rule fifo_run_fifo_inv)
  then have iinv: "index_inv k s" by (simp add: fifo_inv_def)
  have "uint (fifo_get_used_size s) = int (length ?q)"
    using index_inv_used [OF iinv] by simp
  then have u: "unat (fifo_get_used_size s) = length ?q"
    by (simp add: unat_eq_nat_uint)
  have "length ?q < 2 ^ k"
    using assms(4) index_inv_full [OF iinv] index_inv_count_le [OF iinv] by simp
  then have "queue_run (2 ^ k) (?q, c')
       (Push (ucast v) # replicate (Suc (length ?q)) Pull)
     = Some (Push_returned FIFO_OK # map (Pull_returned FIFO_OK) (?q @ [ucast v]), [], ucast v)"
    by (rule queue_push_then_drain)
  then have "queue_run (2 ^ k) (?q, c')
       (map (map_fifo_op ucast) (Push v # replicate (Suc (unat (fifo_get_used_size s))) Pull))
     = Some (Push_returned FIFO_OK # map (Pull_returned FIFO_OK) (?q @ [ucast v]), [], ucast v)"
    unfolding u by simp
  from fifo_run_sim_Some [OF inv this] obtain s'
    where "fifo_run fifo_generic (s, c')
            (Push v # replicate (Suc (unat (fifo_get_used_size s))) Pull)
           = Some (Push_returned FIFO_OK # map (Pull_returned FIFO_OK) (?q @ [ucast v]), s', ucast v)"
    by blast
  moreover have "last (Push_returned FIFO_OK # map (Pull_returned FIFO_OK) (?q @ [ucast v]))
                 = Pull_returned FIFO_OK (ucast v)"
    by simp
  ultimately show ?thesis by blast
qed

lemma ucast_back8: "ucast (ucast (e :: 8 word) :: 32 word) = e"
  by (rule ucast_up_ucast_id) (simp add: is_up)

lemma ucast_back16: "ucast (ucast (e :: 16 word) :: 32 word) = e"
  by (rule ucast_up_ucast_id) (simp add: is_up)

lemma ucast_back32: "ucast (ucast (e :: 32 word) :: 32 word) = e"
  by simp

section \<open>Evaluation on concrete descriptors\<close>

lemmas fifo_eval = fifo_run_def fifo_uint8_def fifo_uint16_def fifo_uint32_def
  fifo_push_uint8_def fifo_push_uint8_nocheck_def fifo_pull_uint8_def
  fifo_pull_uint8_nocheck_def fifo_push_uint16_def fifo_push_uint16_nocheck_def
  fifo_pull_uint16_def fifo_pull_uint16_nocheck_def fifo_push_uint32_def
  fifo_push_uint32_nocheck_def fifo_pull_uint32_def fifo_pull_uint32_nocheck_def
  fifo_init_def fifo_is_full_def fifo_is_empty_def fifo_get_used_size_def
  fifo_get_free_size_def slot_of_def advance_def

section \<open>The claims\<close>

text \<open>
  Claim C1. A freshly initialised FIFO of capacity \<open>2 ^ k\<close> (\<open>k \<le> 7\<close>, so every power
  of two from 1 to 128), over storage of at least that many elements, at each of the three
  element widths: the checked pushes of \<open>2 ^ k\<close> items all return \<^verbatim>\<open>FIFO_OK\<close>, the
  next checked push returns \<^verbatim>\<open>FIFO_ERROR_OVERFLOW\<close>, the following \<open>2 ^ k\<close> checked
  pulls return \<^verbatim>\<open>FIFO_OK\<close> and deliver the items in the order they were pushed (each
  as stored, that is converted to the element type), and the next checked pull returns
  \<^verbatim>\<open>FIFO_ERROR_UNDERFLOW\<close> and leaves the last item delivered in the caller's variable.
  After \<open>j \<le> 2 ^ k\<close> of the pushes \<^verbatim>\<open>fifo_is_full\<close> holds exactly when \<open>j = 2 ^ k\<close>,
  and after the pushes and \<open>j \<le> 2 ^ k\<close> of the pulls \<^verbatim>\<open>fifo_is_empty\<close> holds exactly
  when \<open>j = 2 ^ k\<close>. With \<open>k = 7\<close> this is the capacity 128.
\<close>

theorem fifo_full_capacity:
  assumes "k \<le> 7" and "length vs = 2 ^ k"
    and "2 ^ k \<le> length buf8" and "2 ^ k \<le> length buf16" and "2 ^ k \<le> length buf32"
  shows
    "map_option fst (fifo_run fifo_uint8 (snd (fifo_init fd8 buf8 (2 ^ k)), c8)
        (map Push vs @ [Push x] @ replicate (2 ^ k) Pull @ [Pull]))
       = Some (replicate (2 ^ k) (Push_returned FIFO_OK) @ [Push_returned FIFO_ERROR_OVERFLOW]
               @ map (\<lambda>v. Pull_returned FIFO_OK (ucast v)) vs
               @ [Pull_returned FIFO_ERROR_UNDERFLOW (ucast (last vs))]) \<and>
     (\<forall>j\<le>2 ^ k. \<exists>es s c. fifo_run fifo_uint8 (snd (fifo_init fd8 buf8 (2 ^ k)), c8)
        (map Push (take j vs)) = Some (es, s, c) \<and> (fifo_is_full s \<longleftrightarrow> j = 2 ^ k)) \<and>
     (\<forall>j\<le>2 ^ k. \<exists>es s c. fifo_run fifo_uint8 (snd (fifo_init fd8 buf8 (2 ^ k)), c8)
        (map Push vs @ Push x # replicate j Pull) = Some (es, s, c) \<and>
        (fifo_is_empty s \<longleftrightarrow> j = 2 ^ k)) \<and>
     map_option fst (fifo_run fifo_uint16 (snd (fifo_init fd16 buf16 (2 ^ k)), c16)
        (map Push vs @ [Push x] @ replicate (2 ^ k) Pull @ [Pull]))
       = Some (replicate (2 ^ k) (Push_returned FIFO_OK) @ [Push_returned FIFO_ERROR_OVERFLOW]
               @ map (\<lambda>v. Pull_returned FIFO_OK (ucast v)) vs
               @ [Pull_returned FIFO_ERROR_UNDERFLOW (ucast (last vs))]) \<and>
     (\<forall>j\<le>2 ^ k. \<exists>es s c. fifo_run fifo_uint16 (snd (fifo_init fd16 buf16 (2 ^ k)), c16)
        (map Push (take j vs)) = Some (es, s, c) \<and> (fifo_is_full s \<longleftrightarrow> j = 2 ^ k)) \<and>
     (\<forall>j\<le>2 ^ k. \<exists>es s c. fifo_run fifo_uint16 (snd (fifo_init fd16 buf16 (2 ^ k)), c16)
        (map Push vs @ Push x # replicate j Pull) = Some (es, s, c) \<and>
        (fifo_is_empty s \<longleftrightarrow> j = 2 ^ k)) \<and>
     map_option fst (fifo_run fifo_uint32 (snd (fifo_init fd32 buf32 (2 ^ k)), c32)
        (map Push vs @ [Push x] @ replicate (2 ^ k) Pull @ [Pull]))
       = Some (replicate (2 ^ k) (Push_returned FIFO_OK) @ [Push_returned FIFO_ERROR_OVERFLOW]
               @ map (\<lambda>v. Pull_returned FIFO_OK (ucast v)) vs
               @ [Pull_returned FIFO_ERROR_UNDERFLOW (ucast (last vs))]) \<and>
     (\<forall>j\<le>2 ^ k. \<exists>es s c. fifo_run fifo_uint32 (snd (fifo_init fd32 buf32 (2 ^ k)), c32)
        (map Push (take j vs)) = Some (es, s, c) \<and> (fifo_is_full s \<longleftrightarrow> j = 2 ^ k)) \<and>
     (\<forall>j\<le>2 ^ k. \<exists>es s c. fifo_run fifo_uint32 (snd (fifo_init fd32 buf32 (2 ^ k)), c32)
        (map Push vs @ Push x # replicate j Pull) = Some (es, s, c) \<and>
        (fifo_is_empty s \<longleftrightarrow> j = 2 ^ k))"
  unfolding fifo_uint8_generic fifo_uint16_generic fifo_uint32_generic
proof (intro conjI allI impI)
  show "map_option fst (fifo_run fifo_generic (snd (fifo_init fd8 buf8 (2 ^ k)), c8)
        (map Push vs @ [Push x] @ replicate (2 ^ k) Pull @ [Pull]))
       = Some (replicate (2 ^ k) (Push_returned FIFO_OK) @ [Push_returned FIFO_ERROR_OVERFLOW]
               @ map (\<lambda>v. Pull_returned FIFO_OK (ucast v)) vs
               @ [Pull_returned FIFO_ERROR_UNDERFLOW (ucast (last vs))])"
    using assms(1,2,3) by (rule full_capacity_events)
  show "map_option fst (fifo_run fifo_generic (snd (fifo_init fd16 buf16 (2 ^ k)), c16)
        (map Push vs @ [Push x] @ replicate (2 ^ k) Pull @ [Pull]))
       = Some (replicate (2 ^ k) (Push_returned FIFO_OK) @ [Push_returned FIFO_ERROR_OVERFLOW]
               @ map (\<lambda>v. Pull_returned FIFO_OK (ucast v)) vs
               @ [Pull_returned FIFO_ERROR_UNDERFLOW (ucast (last vs))])"
    using assms(1,2,4) by (rule full_capacity_events)
  show "map_option fst (fifo_run fifo_generic (snd (fifo_init fd32 buf32 (2 ^ k)), c32)
        (map Push vs @ [Push x] @ replicate (2 ^ k) Pull @ [Pull]))
       = Some (replicate (2 ^ k) (Push_returned FIFO_OK) @ [Push_returned FIFO_ERROR_OVERFLOW]
               @ map (\<lambda>v. Pull_returned FIFO_OK (ucast v)) vs
               @ [Pull_returned FIFO_ERROR_UNDERFLOW (ucast (last vs))])"
    using assms(1,2,5) by (rule full_capacity_events)
next
  fix j :: nat assume j: "j \<le> 2 ^ k"
  show "\<exists>es s c. fifo_run fifo_generic (snd (fifo_init fd8 buf8 (2 ^ k)), c8)
        (map Push (take j vs)) = Some (es, s, c) \<and> (fifo_is_full s \<longleftrightarrow> j = 2 ^ k)"
    using assms(1,2,3) j by (rule full_capacity_full)
  show "\<exists>es s c. fifo_run fifo_generic (snd (fifo_init fd16 buf16 (2 ^ k)), c16)
        (map Push (take j vs)) = Some (es, s, c) \<and> (fifo_is_full s \<longleftrightarrow> j = 2 ^ k)"
    using assms(1,2,4) j by (rule full_capacity_full)
  show "\<exists>es s c. fifo_run fifo_generic (snd (fifo_init fd32 buf32 (2 ^ k)), c32)
        (map Push (take j vs)) = Some (es, s, c) \<and> (fifo_is_full s \<longleftrightarrow> j = 2 ^ k)"
    using assms(1,2,5) j by (rule full_capacity_full)
  show "\<exists>es s c. fifo_run fifo_generic (snd (fifo_init fd8 buf8 (2 ^ k)), c8)
        (map Push vs @ Push x # replicate j Pull) = Some (es, s, c) \<and>
        (fifo_is_empty s \<longleftrightarrow> j = 2 ^ k)"
    using assms(1,2,3) j by (rule full_capacity_empty)
  show "\<exists>es s c. fifo_run fifo_generic (snd (fifo_init fd16 buf16 (2 ^ k)), c16)
        (map Push vs @ Push x # replicate j Pull) = Some (es, s, c) \<and>
        (fifo_is_empty s \<longleftrightarrow> j = 2 ^ k)"
    using assms(1,2,4) j by (rule full_capacity_empty)
  show "\<exists>es s c. fifo_run fifo_generic (snd (fifo_init fd32 buf32 (2 ^ k)), c32)
        (map Push vs @ Push x # replicate j Pull) = Some (es, s, c) \<and>
        (fifo_is_empty s \<longleftrightarrow> j = 2 ^ k)"
    using assms(1,2,5) j by (rule full_capacity_empty)
qed

theorem fifo_full_capacity_witness:
  "(2 :: nat) \<le> 7 \<and> length [1, 2, 3, 4 :: 32 word] = 2 ^ 2 \<and>
   2 ^ 2 \<le> length [0, 0, 0, 0 :: 8 word] \<and> 2 ^ 2 \<le> length [0, 0, 0, 0 :: 16 word] \<and>
   2 ^ 2 \<le> length [0, 0, 0, 0 :: 32 word] \<and>
   map_option fst (fifo_run fifo_uint8
     (snd (fifo_init \<lparr>buffer = [], read_index = 9, write_index = 3, size_f = 0, mask_f = 0\<rparr>
        [0, 0, 0, 0] (2 ^ 2)), 0)
     [Push 1, Push 2, Push 3, Push 4, Push 5, Pull, Pull, Pull, Pull, Pull])
     = Some [Push_returned FIFO_OK, Push_returned FIFO_OK, Push_returned FIFO_OK,
             Push_returned FIFO_OK, Push_returned FIFO_ERROR_OVERFLOW,
             Pull_returned FIFO_OK 1, Pull_returned FIFO_OK 2, Pull_returned FIFO_OK 3,
             Pull_returned FIFO_OK 4, Pull_returned FIFO_ERROR_UNDERFLOW 4] \<and>
   (\<exists>es s c. fifo_run fifo_uint8
     (snd (fifo_init \<lparr>buffer = [], read_index = 9, write_index = 3, size_f = 0, mask_f = 0\<rparr>
        [0, 0, 0, 0] (2 ^ 2)), 0)
     [Push 1, Push 2, Push 3, Push 4] = Some (es, s, c) \<and> fifo_is_full s) \<and>
   (\<exists>es s c. fifo_run fifo_uint8
     (snd (fifo_init \<lparr>buffer = [], read_index = 9, write_index = 3, size_f = 0, mask_f = 0\<rparr>
        [0, 0, 0, 0] (2 ^ 2)), 0)
     [Push 1, Push 2, Push 3] = Some (es, s, c) \<and> \<not> fifo_is_full s) \<and>
   (\<exists>es s c. fifo_run fifo_uint8
     (snd (fifo_init \<lparr>buffer = [], read_index = 9, write_index = 3, size_f = 0, mask_f = 0\<rparr>
        [0, 0, 0, 0] (2 ^ 2)), 0)
     [Push 1, Push 2, Push 3, Push 4, Push 5, Pull, Pull, Pull, Pull] = Some (es, s, c) \<and>
     fifo_is_empty s) \<and>
   map_option fst (fifo_run fifo_uint16
     (snd (fifo_init \<lparr>buffer = [], read_index = 9, write_index = 3, size_f = 0, mask_f = 0\<rparr>
        [0, 0, 0, 0] (2 ^ 2)), 0)
     [Push 1, Push 2, Push 3, Push 4, Push 5, Pull, Pull, Pull, Pull, Pull])
     = Some [Push_returned FIFO_OK, Push_returned FIFO_OK, Push_returned FIFO_OK,
             Push_returned FIFO_OK, Push_returned FIFO_ERROR_OVERFLOW,
             Pull_returned FIFO_OK 1, Pull_returned FIFO_OK 2, Pull_returned FIFO_OK 3,
             Pull_returned FIFO_OK 4, Pull_returned FIFO_ERROR_UNDERFLOW 4] \<and>
   map_option fst (fifo_run fifo_uint32
     (snd (fifo_init \<lparr>buffer = [], read_index = 9, write_index = 3, size_f = 0, mask_f = 0\<rparr>
        [0, 0, 0, 0] (2 ^ 2)), 0)
     [Push 1, Push 2, Push 3, Push 4, Push 5, Pull, Pull, Pull, Pull, Pull])
     = Some [Push_returned FIFO_OK, Push_returned FIFO_OK, Push_returned FIFO_OK,
             Push_returned FIFO_OK, Push_returned FIFO_ERROR_OVERFLOW,
             Pull_returned FIFO_OK 1, Pull_returned FIFO_OK 2, Pull_returned FIFO_OK 3,
             Pull_returned FIFO_OK 4, Pull_returned FIFO_ERROR_UNDERFLOW 4]"
proof -
  have h: "(2 :: nat) \<le> 7" "length [1, 2, 3, 4 :: 32 word] = 2 ^ 2"
    "2 ^ 2 \<le> length [0, 0, 0, 0 :: 8 word]" "2 ^ 2 \<le> length [0, 0, 0, 0 :: 16 word]"
    "2 ^ 2 \<le> length [0, 0, 0, 0 :: 32 word]"
    by simp_all
  have rep: "replicate 4 y = [y, y, y, y]" for y :: 'b
    by (simp add: numeral_eq_Suc)
  note t = fifo_full_capacity [OF h,
      of "\<lparr>buffer = [], read_index = 9, write_index = 3, size_f = 0, mask_f = 0\<rparr>" 0 5
         "\<lparr>buffer = [], read_index = 9, write_index = 3, size_f = 0, mask_f = 0\<rparr>" 0
         "\<lparr>buffer = [], read_index = 9, write_index = 3, size_f = 0, mask_f = 0\<rparr>" 0]
  from t have e8: "map_option fst (fifo_run fifo_uint8
     (snd (fifo_init \<lparr>buffer = [], read_index = 9, write_index = 3, size_f = 0, mask_f = 0\<rparr>
        [0, 0, 0, 0] (2 ^ 2)), 0)
     [Push 1, Push 2, Push 3, Push 4, Push 5, Pull, Pull, Pull, Pull, Pull])
     = Some [Push_returned FIFO_OK, Push_returned FIFO_OK, Push_returned FIFO_OK,
             Push_returned FIFO_OK, Push_returned FIFO_ERROR_OVERFLOW,
             Pull_returned FIFO_OK 1, Pull_returned FIFO_OK 2, Pull_returned FIFO_OK 3,
             Pull_returned FIFO_OK 4, Pull_returned FIFO_ERROR_UNDERFLOW 4]"
    by (simp add: rep)
  from t have e16: "map_option fst (fifo_run fifo_uint16
     (snd (fifo_init \<lparr>buffer = [], read_index = 9, write_index = 3, size_f = 0, mask_f = 0\<rparr>
        [0, 0, 0, 0] (2 ^ 2)), 0)
     [Push 1, Push 2, Push 3, Push 4, Push 5, Pull, Pull, Pull, Pull, Pull])
     = Some [Push_returned FIFO_OK, Push_returned FIFO_OK, Push_returned FIFO_OK,
             Push_returned FIFO_OK, Push_returned FIFO_ERROR_OVERFLOW,
             Pull_returned FIFO_OK 1, Pull_returned FIFO_OK 2, Pull_returned FIFO_OK 3,
             Pull_returned FIFO_OK 4, Pull_returned FIFO_ERROR_UNDERFLOW 4]"
    by (simp add: rep)
  from t have e32: "map_option fst (fifo_run fifo_uint32
     (snd (fifo_init \<lparr>buffer = [], read_index = 9, write_index = 3, size_f = 0, mask_f = 0\<rparr>
        [0, 0, 0, 0] (2 ^ 2)), 0)
     [Push 1, Push 2, Push 3, Push 4, Push 5, Pull, Pull, Pull, Pull, Pull])
     = Some [Push_returned FIFO_OK, Push_returned FIFO_OK, Push_returned FIFO_OK,
             Push_returned FIFO_OK, Push_returned FIFO_ERROR_OVERFLOW,
             Pull_returned FIFO_OK 1, Pull_returned FIFO_OK 2, Pull_returned FIFO_OK 3,
             Pull_returned FIFO_OK 4, Pull_returned FIFO_ERROR_UNDERFLOW 4]"
    by (simp add: rep)
  from t have full: "\<forall>j\<le>2 ^ 2. \<exists>es s c. fifo_run fifo_uint8
     (snd (fifo_init \<lparr>buffer = [], read_index = 9, write_index = 3, size_f = 0, mask_f = 0\<rparr>
        [0, 0, 0, 0] (2 ^ 2)), 0)
     (map Push (take j [1, 2, 3, 4])) = Some (es, s, c) \<and> (fifo_is_full s \<longleftrightarrow> j = 2 ^ 2)"
    by (elim conjE)
  from t have empty: "\<forall>j\<le>2 ^ 2. \<exists>es s c. fifo_run fifo_uint8
     (snd (fifo_init \<lparr>buffer = [], read_index = 9, write_index = 3, size_f = 0, mask_f = 0\<rparr>
        [0, 0, 0, 0] (2 ^ 2)), 0)
     (map Push [1, 2, 3, 4] @ Push 5 # replicate j Pull) = Some (es, s, c)
       \<and> (fifo_is_empty s \<longleftrightarrow> j = 2 ^ 2)"
    by (elim conjE)
  from full [rule_format, of 4] have f4: "\<exists>es s c. fifo_run fifo_uint8
     (snd (fifo_init \<lparr>buffer = [], read_index = 9, write_index = 3, size_f = 0, mask_f = 0\<rparr>
        [0, 0, 0, 0] (2 ^ 2)), 0)
     [Push 1, Push 2, Push 3, Push 4] = Some (es, s, c) \<and> fifo_is_full s"
    by simp
  from full [rule_format, of 3] have f3: "\<exists>es s c. fifo_run fifo_uint8
     (snd (fifo_init \<lparr>buffer = [], read_index = 9, write_index = 3, size_f = 0, mask_f = 0\<rparr>
        [0, 0, 0, 0] (2 ^ 2)), 0)
     [Push 1, Push 2, Push 3] = Some (es, s, c) \<and> \<not> fifo_is_full s"
    by simp
  from empty [rule_format, of 4] have e4: "\<exists>es s c. fifo_run fifo_uint8
     (snd (fifo_init \<lparr>buffer = [], read_index = 9, write_index = 3, size_f = 0, mask_f = 0\<rparr>
        [0, 0, 0, 0] (2 ^ 2)), 0)
     [Push 1, Push 2, Push 3, Push 4, Push 5, Pull, Pull, Pull, Pull] = Some (es, s, c) \<and>
     fifo_is_empty s"
    by (simp add: rep)
  from h e8 e16 e32 f4 f3 e4 show ?thesis by (intro conjI)
qed

text \<open>
  Claim C2. At each of the three element widths, from a freshly initialised FIFO of
  capacity \<open>2 ^ k\<close> over storage of at least that many elements, every sequence of calls
  returns what the bounded queue of the specification returns for it, call by call: a
  successful pull delivers the oldest element that was pushed and not yet pulled. The
  queue holds the elements as stored, that is the \<^verbatim>\<open>uint32_t\<close> argument of the push
  converted to the element type. In particular, after an element \<open>e\<close> is pushed into a
  FIFO that is not full and holds \<open>u\<close> elements, the pull number \<open>u + 1\<close> delivers
  \<open>e\<close>; on an empty FIFO that is the very next pull.
\<close>

theorem fifo_queue_semantics:
  assumes "k \<le> 7"
    and "2 ^ k \<le> length buf8" and "2 ^ k \<le> length buf16" and "2 ^ k \<le> length buf32"
  shows
    "map_option fst (fifo_run fifo_uint8 (snd (fifo_init fd8 buf8 (2 ^ k)), c8) ops8)
       = map_option fst (queue_run (2 ^ k) ([], c8) (map (map_fifo_op ucast) ops8)) \<and>
     (fifo_run fifo_uint8 (snd (fifo_init fd8 buf8 (2 ^ k)), c8) ops8 = Some (es8, s8, c8') \<and>
      \<not> fifo_is_full s8 \<longrightarrow>
        (\<exists>es s. fifo_run fifo_uint8 (s8, c8')
            (Push (ucast e8) # replicate (Suc (unat (fifo_get_used_size s8))) Pull)
            = Some (es, s, e8) \<and> last es = Pull_returned FIFO_OK e8)) \<and>
     map_option fst (fifo_run fifo_uint16 (snd (fifo_init fd16 buf16 (2 ^ k)), c16) ops16)
       = map_option fst (queue_run (2 ^ k) ([], c16) (map (map_fifo_op ucast) ops16)) \<and>
     (fifo_run fifo_uint16 (snd (fifo_init fd16 buf16 (2 ^ k)), c16) ops16 = Some (es16, s16, c16') \<and>
      \<not> fifo_is_full s16 \<longrightarrow>
        (\<exists>es s. fifo_run fifo_uint16 (s16, c16')
            (Push (ucast e16) # replicate (Suc (unat (fifo_get_used_size s16))) Pull)
            = Some (es, s, e16) \<and> last es = Pull_returned FIFO_OK e16)) \<and>
     map_option fst (fifo_run fifo_uint32 (snd (fifo_init fd32 buf32 (2 ^ k)), c32) ops32)
       = map_option fst (queue_run (2 ^ k) ([], c32) (map (map_fifo_op ucast) ops32)) \<and>
     (fifo_run fifo_uint32 (snd (fifo_init fd32 buf32 (2 ^ k)), c32) ops32 = Some (es32, s32, c32') \<and>
      \<not> fifo_is_full s32 \<longrightarrow>
        (\<exists>es s. fifo_run fifo_uint32 (s32, c32')
            (Push (ucast e32) # replicate (Suc (unat (fifo_get_used_size s32))) Pull)
            = Some (es, s, e32) \<and> last es = Pull_returned FIFO_OK e32))"
  unfolding fifo_uint8_generic fifo_uint16_generic fifo_uint32_generic
proof (intro conjI impI)
  show "map_option fst (fifo_run fifo_generic (snd (fifo_init fd8 buf8 (2 ^ k)), c8) ops8)
       = map_option fst (queue_run (2 ^ k) ([], c8) (map (map_fifo_op ucast) ops8))"
    using assms(1,2) by (rule queue_refinement_generic)
  show "map_option fst (fifo_run fifo_generic (snd (fifo_init fd16 buf16 (2 ^ k)), c16) ops16)
       = map_option fst (queue_run (2 ^ k) ([], c16) (map (map_fifo_op ucast) ops16))"
    using assms(1,3) by (rule queue_refinement_generic)
  show "map_option fst (fifo_run fifo_generic (snd (fifo_init fd32 buf32 (2 ^ k)), c32) ops32)
       = map_option fst (queue_run (2 ^ k) ([], c32) (map (map_fifo_op ucast) ops32))"
    using assms(1,4) by (rule queue_refinement_generic)
next
  assume "fifo_run fifo_generic (snd (fifo_init fd8 buf8 (2 ^ k)), c8) ops8 = Some (es8, s8, c8')
      \<and> \<not> fifo_is_full s8"
  then have "fifo_run fifo_generic (snd (fifo_init fd8 buf8 (2 ^ k)), c8) ops8 = Some (es8, s8, c8')"
    and "\<not> fifo_is_full s8" by simp_all
  with assms(1,2) show "\<exists>es s. fifo_run fifo_generic (s8, c8')
            (Push (ucast e8) # replicate (Suc (unat (fifo_get_used_size s8))) Pull)
            = Some (es, s, e8) \<and> last es = Pull_returned FIFO_OK e8"
    using round_trip_generic [where v = "ucast e8" and 'a = 8] by (simp only: ucast_back8)
next
  assume "fifo_run fifo_generic (snd (fifo_init fd16 buf16 (2 ^ k)), c16) ops16 = Some (es16, s16, c16')
      \<and> \<not> fifo_is_full s16"
  then have "fifo_run fifo_generic (snd (fifo_init fd16 buf16 (2 ^ k)), c16) ops16 = Some (es16, s16, c16')"
    and "\<not> fifo_is_full s16" by simp_all
  with assms(1,3) show "\<exists>es s. fifo_run fifo_generic (s16, c16')
            (Push (ucast e16) # replicate (Suc (unat (fifo_get_used_size s16))) Pull)
            = Some (es, s, e16) \<and> last es = Pull_returned FIFO_OK e16"
    using round_trip_generic [where v = "ucast e16" and 'a = 16] by (simp only: ucast_back16)
next
  assume "fifo_run fifo_generic (snd (fifo_init fd32 buf32 (2 ^ k)), c32) ops32 = Some (es32, s32, c32')
      \<and> \<not> fifo_is_full s32"
  then have "fifo_run fifo_generic (snd (fifo_init fd32 buf32 (2 ^ k)), c32) ops32 = Some (es32, s32, c32')"
    and "\<not> fifo_is_full s32" by simp_all
  with assms(1,4) show "\<exists>es s. fifo_run fifo_generic (s32, c32')
            (Push (ucast e32) # replicate (Suc (unat (fifo_get_used_size s32))) Pull)
            = Some (es, s, e32) \<and> last es = Pull_returned FIFO_OK e32"
    using round_trip_generic [where v = "ucast e32" and 'a = 32] by (simp only: ucast_back32)
qed

theorem fifo_queue_semantics_witness:
  "(1 :: nat) \<le> 7 \<and> 2 ^ 1 \<le> length [0, 0 :: 8 word] \<and> 2 ^ 1 \<le> length [0, 0 :: 16 word] \<and>
   2 ^ 1 \<le> length [0, 0 :: 32 word] \<and>
   fifo_run fifo_uint8
     (snd (fifo_init \<lparr>buffer = [], read_index = 9, write_index = 3, size_f = 0, mask_f = 0\<rparr>
        [0, 0] (2 ^ 1)), 0) [Push 1, Push 2, Push 3, Pull]
     = Some ([Push_returned FIFO_OK, Push_returned FIFO_OK, Push_returned FIFO_ERROR_OVERFLOW,
              Pull_returned FIFO_OK 1],
          \<lparr>buffer = [1, 2], read_index = 1, write_index = 2, size_f = 2, mask_f = 3\<rparr>, 1) \<and>
   \<not> fifo_is_full
      \<lparr>buffer = [1, 2 :: 8 word], read_index = 1, write_index = 2, size_f = 2, mask_f = 3\<rparr> \<and>
   map_option fst (queue_run (2 ^ 1) ([], 0 :: 8 word) [Push 1, Push 2, Push 3, Pull])
     = Some [Push_returned FIFO_OK, Push_returned FIFO_OK, Push_returned FIFO_ERROR_OVERFLOW,
             Pull_returned FIFO_OK 1] \<and>
   (\<exists>es s. fifo_run fifo_uint8
      (\<lparr>buffer = [1, 2], read_index = 1, write_index = 2, size_f = 2, mask_f = 3\<rparr>, 1)
      [Push 9, Pull, Pull] = Some (es, s, 9) \<and> last es = Pull_returned FIFO_OK 9) \<and>
   fifo_run fifo_uint16
     (snd (fifo_init \<lparr>buffer = [], read_index = 9, write_index = 3, size_f = 0, mask_f = 0\<rparr>
        [0, 0] (2 ^ 1)), 0) [Push 1, Push 2, Push 3, Pull]
     = Some ([Push_returned FIFO_OK, Push_returned FIFO_OK, Push_returned FIFO_ERROR_OVERFLOW,
              Pull_returned FIFO_OK 1],
          \<lparr>buffer = [1, 2], read_index = 1, write_index = 2, size_f = 2, mask_f = 3\<rparr>, 1) \<and>
   \<not> fifo_is_full
      \<lparr>buffer = [1, 2 :: 16 word], read_index = 1, write_index = 2, size_f = 2, mask_f = 3\<rparr> \<and>
   (\<exists>es s. fifo_run fifo_uint16
      (\<lparr>buffer = [1, 2], read_index = 1, write_index = 2, size_f = 2, mask_f = 3\<rparr>, 1)
      [Push 9, Pull, Pull] = Some (es, s, 9) \<and> last es = Pull_returned FIFO_OK 9) \<and>
   fifo_run fifo_uint32
     (snd (fifo_init \<lparr>buffer = [], read_index = 9, write_index = 3, size_f = 0, mask_f = 0\<rparr>
        [0, 0] (2 ^ 1)), 0) [Push 1, Push 2, Push 3, Pull]
     = Some ([Push_returned FIFO_OK, Push_returned FIFO_OK, Push_returned FIFO_ERROR_OVERFLOW,
              Pull_returned FIFO_OK 1],
          \<lparr>buffer = [1, 2], read_index = 1, write_index = 2, size_f = 2, mask_f = 3\<rparr>, 1) \<and>
   \<not> fifo_is_full
      \<lparr>buffer = [1, 2 :: 32 word], read_index = 1, write_index = 2, size_f = 2, mask_f = 3\<rparr> \<and>
   (\<exists>es s. fifo_run fifo_uint32
      (\<lparr>buffer = [1, 2], read_index = 1, write_index = 2, size_f = 2, mask_f = 3\<rparr>, 1)
      [Push 9, Pull, Pull] = Some (es, s, 9) \<and> last es = Pull_returned FIFO_OK 9)"
proof -
  have h: "(1 :: nat) \<le> 7" "2 ^ 1 \<le> length [0, 0 :: 8 word]" "2 ^ 1 \<le> length [0, 0 :: 16 word]"
    "2 ^ 1 \<le> length [0, 0 :: 32 word]"
    by simp_all
  have r8: "fifo_run fifo_uint8
     (snd (fifo_init \<lparr>buffer = [], read_index = 9, write_index = 3, size_f = 0, mask_f = 0\<rparr>
        [0, 0] (2 ^ 1)), 0) [Push 1, Push 2, Push 3, Pull]
     = Some ([Push_returned FIFO_OK, Push_returned FIFO_OK, Push_returned FIFO_ERROR_OVERFLOW,
              Pull_returned FIFO_OK 1],
          \<lparr>buffer = [1, 2], read_index = 1, write_index = 2, size_f = 2, mask_f = 3\<rparr>, 1)"
    by (simp add: fifo_eval)
  have r16: "fifo_run fifo_uint16
     (snd (fifo_init \<lparr>buffer = [], read_index = 9, write_index = 3, size_f = 0, mask_f = 0\<rparr>
        [0, 0] (2 ^ 1)), 0) [Push 1, Push 2, Push 3, Pull]
     = Some ([Push_returned FIFO_OK, Push_returned FIFO_OK, Push_returned FIFO_ERROR_OVERFLOW,
              Pull_returned FIFO_OK 1],
          \<lparr>buffer = [1, 2], read_index = 1, write_index = 2, size_f = 2, mask_f = 3\<rparr>, 1)"
    by (simp add: fifo_eval)
  have r32: "fifo_run fifo_uint32
     (snd (fifo_init \<lparr>buffer = [], read_index = 9, write_index = 3, size_f = 0, mask_f = 0\<rparr>
        [0, 0] (2 ^ 1)), 0) [Push 1, Push 2, Push 3, Pull]
     = Some ([Push_returned FIFO_OK, Push_returned FIFO_OK, Push_returned FIFO_ERROR_OVERFLOW,
              Pull_returned FIFO_OK 1],
          \<lparr>buffer = [1, 2], read_index = 1, write_index = 2, size_f = 2, mask_f = 3\<rparr>, 1)"
    by (simp add: fifo_eval)
  have nf: "\<not> fifo_is_full
      \<lparr>buffer = [1, 2 :: 8 word], read_index = 1, write_index = 2, size_f = 2, mask_f = 3\<rparr>"
    "\<not> fifo_is_full
      \<lparr>buffer = [1, 2 :: 16 word], read_index = 1, write_index = 2, size_f = 2, mask_f = 3\<rparr>"
    "\<not> fifo_is_full
      \<lparr>buffer = [1, 2 :: 32 word], read_index = 1, write_index = 2, size_f = 2, mask_f = 3\<rparr>"
    by (simp_all add: fifo_is_full_def fifo_get_used_size_def)
  have u: "unat (fifo_get_used_size
      \<lparr>buffer = b, read_index = 1, write_index = 2, size_f = 2, mask_f = 3\<rparr>) = 1"
    for b :: "'b list"
    by (simp add: fifo_get_used_size_def)
  note t = fifo_queue_semantics [OF h,
      where ?fd8.0 = "\<lparr>buffer = [], read_index = 9, write_index = 3, size_f = 0, mask_f = 0\<rparr>"
        and ?c8.0 = 0 and ?ops8.0 = "[Push 1, Push 2, Push 3, Pull]"
        and ?fd16.0 = "\<lparr>buffer = [], read_index = 9, write_index = 3, size_f = 0, mask_f = 0\<rparr>"
        and ?c16.0 = 0 and ?ops16.0 = "[Push 1, Push 2, Push 3, Pull]"
        and ?fd32.0 = "\<lparr>buffer = [], read_index = 9, write_index = 3, size_f = 0, mask_f = 0\<rparr>"
        and ?c32.0 = 0 and ?ops32.0 = "[Push 1, Push 2, Push 3, Pull]"
        and ?e8.0 = 9 and ?e16.0 = 9 and ?e32.0 = 9
        and ?es8.0 = "[Push_returned FIFO_OK, Push_returned FIFO_OK,
                       Push_returned FIFO_ERROR_OVERFLOW, Pull_returned FIFO_OK 1]"
        and ?s8.0 = "\<lparr>buffer = [1, 2], read_index = 1, write_index = 2, size_f = 2, mask_f = 3\<rparr>"
        and ?c8'.0 = 1
        and ?es16.0 = "[Push_returned FIFO_OK, Push_returned FIFO_OK,
                       Push_returned FIFO_ERROR_OVERFLOW, Pull_returned FIFO_OK 1]"
        and ?s16.0 = "\<lparr>buffer = [1, 2], read_index = 1, write_index = 2, size_f = 2, mask_f = 3\<rparr>"
        and ?c16'.0 = 1
        and ?es32.0 = "[Push_returned FIFO_OK, Push_returned FIFO_OK,
                       Push_returned FIFO_ERROR_OVERFLOW, Pull_returned FIFO_OK 1]"
        and ?s32.0 = "\<lparr>buffer = [1, 2], read_index = 1, write_index = 2, size_f = 2, mask_f = 3\<rparr>"
        and ?c32'.0 = 1]
  show ?thesis
    using h r8 r16 r32 nf t by (simp add: u queue_run_def)
qed

text \<open>
  Claim C3. In every state that a sequence of calls reaches from a freshly initialised
  FIFO of capacity \<open>2 ^ k\<close> (checked pushes and pulls, and unchecked ones made where
  their precondition holds), at each of the three element widths:
  \<^verbatim>\<open>fifo_get_used_size\<close> is \<open>(write_index - read_index) mod (2 \<times> capacity)\<close>, it
  lies between 0 and the capacity, and \<^verbatim>\<open>fifo_get_used_size\<close> plus
  \<^verbatim>\<open>fifo_get_free_size\<close> is the capacity. Every prefix of a sequence is a sequence, so
  this is the statement at every state on the way.
\<close>

theorem fifo_occupancy_invariant:
  assumes "k \<le> 7"
  shows
    "(fifo_run fifo_uint8 (snd (fifo_init fd8 buf8 (2 ^ k)), c8) ops8 = Some (es8, s8, c8') \<longrightarrow>
        uint (fifo_get_used_size s8)
          = (uint (write_index s8) - uint (read_index s8)) mod (2 * 2 ^ k) \<and>
        0 \<le> uint (fifo_get_used_size s8) \<and> uint (fifo_get_used_size s8) \<le> 2 ^ k \<and>
        uint (fifo_get_used_size s8) + uint (fifo_get_free_size s8) = 2 ^ k) \<and>
     (fifo_run fifo_uint16 (snd (fifo_init fd16 buf16 (2 ^ k)), c16) ops16 = Some (es16, s16, c16') \<longrightarrow>
        uint (fifo_get_used_size s16)
          = (uint (write_index s16) - uint (read_index s16)) mod (2 * 2 ^ k) \<and>
        0 \<le> uint (fifo_get_used_size s16) \<and> uint (fifo_get_used_size s16) \<le> 2 ^ k \<and>
        uint (fifo_get_used_size s16) + uint (fifo_get_free_size s16) = 2 ^ k) \<and>
     (fifo_run fifo_uint32 (snd (fifo_init fd32 buf32 (2 ^ k)), c32) ops32 = Some (es32, s32, c32') \<longrightarrow>
        uint (fifo_get_used_size s32)
          = (uint (write_index s32) - uint (read_index s32)) mod (2 * 2 ^ k) \<and>
        0 \<le> uint (fifo_get_used_size s32) \<and> uint (fifo_get_used_size s32) \<le> 2 ^ k \<and>
        uint (fifo_get_used_size s32) + uint (fifo_get_free_size s32) = 2 ^ k)"
proof (intro conjI impI)
  assume "fifo_run fifo_uint8 (snd (fifo_init fd8 buf8 (2 ^ k)), c8) ops8 = Some (es8, s8, c8')"
  then have i8: "index_inv k s8"
    using assms unfolding fifo_uint8_generic by (intro reachable_index_inv)
  note r8 = occupancy_generic [OF i8]
  from r8 show "uint (fifo_get_used_size s8)
          = (uint (write_index s8) - uint (read_index s8)) mod (2 * 2 ^ k)" by simp
  from r8 show "0 \<le> uint (fifo_get_used_size s8)" by simp
  from r8 show "uint (fifo_get_used_size s8) \<le> 2 ^ k" by simp
  from r8 show "uint (fifo_get_used_size s8) + uint (fifo_get_free_size s8) = 2 ^ k" by simp
next
  assume "fifo_run fifo_uint16 (snd (fifo_init fd16 buf16 (2 ^ k)), c16) ops16 = Some (es16, s16, c16')"
  then have i16: "index_inv k s16"
    using assms unfolding fifo_uint16_generic by (intro reachable_index_inv)
  note r16 = occupancy_generic [OF i16]
  from r16 show "uint (fifo_get_used_size s16)
          = (uint (write_index s16) - uint (read_index s16)) mod (2 * 2 ^ k)" by simp
  from r16 show "0 \<le> uint (fifo_get_used_size s16)" by simp
  from r16 show "uint (fifo_get_used_size s16) \<le> 2 ^ k" by simp
  from r16 show "uint (fifo_get_used_size s16) + uint (fifo_get_free_size s16) = 2 ^ k" by simp
next
  assume "fifo_run fifo_uint32 (snd (fifo_init fd32 buf32 (2 ^ k)), c32) ops32 = Some (es32, s32, c32')"
  then have i32: "index_inv k s32"
    using assms unfolding fifo_uint32_generic by (intro reachable_index_inv)
  note r32 = occupancy_generic [OF i32]
  from r32 show "uint (fifo_get_used_size s32)
          = (uint (write_index s32) - uint (read_index s32)) mod (2 * 2 ^ k)" by simp
  from r32 show "0 \<le> uint (fifo_get_used_size s32)" by simp
  from r32 show "uint (fifo_get_used_size s32) \<le> 2 ^ k" by simp
  from r32 show "uint (fifo_get_used_size s32) + uint (fifo_get_free_size s32) = 2 ^ k" by simp
qed

theorem fifo_occupancy_invariant_witness:
  "(1 :: nat) \<le> 7 \<and>
   fifo_run fifo_uint8
     (snd (fifo_init \<lparr>buffer = [], read_index = 9, write_index = 3, size_f = 0, mask_f = 0\<rparr>
        [0, 0] (2 ^ 1)), 0) [Push 1, Push_nocheck 2, Pull]
     = Some ([Push_returned FIFO_OK, Pushed_nocheck, Pull_returned FIFO_OK 1],
          \<lparr>buffer = [1, 2], read_index = 1, write_index = 2, size_f = 2, mask_f = 3\<rparr>, 1) \<and>
   uint (fifo_get_used_size
     \<lparr>buffer = [1, 2 :: 8 word], read_index = 1, write_index = 2, size_f = 2, mask_f = 3\<rparr>) = 1 \<and>
   uint (fifo_get_free_size
     \<lparr>buffer = [1, 2 :: 8 word], read_index = 1, write_index = 2, size_f = 2, mask_f = 3\<rparr>) = 1 \<and>
   fifo_run fifo_uint16
     (snd (fifo_init \<lparr>buffer = [], read_index = 9, write_index = 3, size_f = 0, mask_f = 0\<rparr>
        [0, 0] (2 ^ 1)), 0) [Push 1, Push_nocheck 2, Pull]
     = Some ([Push_returned FIFO_OK, Pushed_nocheck, Pull_returned FIFO_OK 1],
          \<lparr>buffer = [1, 2], read_index = 1, write_index = 2, size_f = 2, mask_f = 3\<rparr>, 1) \<and>
   uint (fifo_get_used_size
     \<lparr>buffer = [1, 2 :: 16 word], read_index = 1, write_index = 2, size_f = 2, mask_f = 3\<rparr>) = 1 \<and>
   fifo_run fifo_uint32
     (snd (fifo_init \<lparr>buffer = [], read_index = 9, write_index = 3, size_f = 0, mask_f = 0\<rparr>
        [0, 0] (2 ^ 1)), 0) [Push 1, Push_nocheck 2, Pull]
     = Some ([Push_returned FIFO_OK, Pushed_nocheck, Pull_returned FIFO_OK 1],
          \<lparr>buffer = [1, 2], read_index = 1, write_index = 2, size_f = 2, mask_f = 3\<rparr>, 1) \<and>
   uint (fifo_get_used_size
     \<lparr>buffer = [1, 2 :: 32 word], read_index = 1, write_index = 2, size_f = 2, mask_f = 3\<rparr>) = 1"
proof -
  have k: "(1 :: nat) \<le> 7" by simp
  have r8: "fifo_run fifo_uint8
     (snd (fifo_init \<lparr>buffer = [], read_index = 9, write_index = 3, size_f = 0, mask_f = 0\<rparr>
        [0, 0] (2 ^ 1)), 0) [Push 1, Push_nocheck 2, Pull]
     = Some ([Push_returned FIFO_OK, Pushed_nocheck, Pull_returned FIFO_OK 1],
          \<lparr>buffer = [1, 2], read_index = 1, write_index = 2, size_f = 2, mask_f = 3\<rparr>, 1)"
    by (simp add: fifo_eval)
  have r16: "fifo_run fifo_uint16
     (snd (fifo_init \<lparr>buffer = [], read_index = 9, write_index = 3, size_f = 0, mask_f = 0\<rparr>
        [0, 0] (2 ^ 1)), 0) [Push 1, Push_nocheck 2, Pull]
     = Some ([Push_returned FIFO_OK, Pushed_nocheck, Pull_returned FIFO_OK 1],
          \<lparr>buffer = [1, 2], read_index = 1, write_index = 2, size_f = 2, mask_f = 3\<rparr>, 1)"
    by (simp add: fifo_eval)
  have r32: "fifo_run fifo_uint32
     (snd (fifo_init \<lparr>buffer = [], read_index = 9, write_index = 3, size_f = 0, mask_f = 0\<rparr>
        [0, 0] (2 ^ 1)), 0) [Push 1, Push_nocheck 2, Pull]
     = Some ([Push_returned FIFO_OK, Pushed_nocheck, Pull_returned FIFO_OK 1],
          \<lparr>buffer = [1, 2], read_index = 1, write_index = 2, size_f = 2, mask_f = 3\<rparr>, 1)"
    by (simp add: fifo_eval)
  note w = fifo_occupancy_invariant [OF k, THEN conjunct1, rule_format, OF r8]
    fifo_occupancy_invariant [OF k, THEN conjunct2, THEN conjunct1, rule_format, OF r16]
    fifo_occupancy_invariant [OF k, THEN conjunct2, THEN conjunct2, rule_format, OF r32]
  show ?thesis using k r8 r16 r32 w by simp
qed

text \<open>
  Claim C4. A checked call that fails changes nothing: a push on a full FIFO returns
  \<^verbatim>\<open>FIFO_ERROR_OVERFLOW\<close> with the descriptor and its storage as they were, a pull on an
  empty FIFO returns \<^verbatim>\<open>FIFO_ERROR_UNDERFLOW\<close> with the descriptor, its storage and the
  caller's variable as they were. A checked call that succeeds makes one change: the push
  writes the one slot under the write index and advances the write index by one
  position, the pull delivers the slot under the read index and advances the read index
  by one position; every other field and every other slot is as before. This holds in
  every state of the descriptor and at each of the three element widths.
\<close>

theorem checked_ops_atomic:
  "(fifo_is_full fd8 \<longrightarrow> fifo_push_uint8 fd8 item = (FIFO_ERROR_OVERFLOW, fd8)) \<and>
   (\<not> fifo_is_full fd8 \<longrightarrow> fifo_push_uint8 fd8 item =
      (FIFO_OK, fd8\<lparr>buffer := (buffer fd8)[slot_of (write_index fd8) (mask_f fd8) := ucast item],
                    write_index := advance (write_index fd8) (mask_f fd8)\<rparr>)) \<and>
   (fifo_is_empty fd8 \<longrightarrow> fifo_pull_uint8 fd8 cell8 = (FIFO_ERROR_UNDERFLOW, cell8, fd8)) \<and>
   (\<not> fifo_is_empty fd8 \<longrightarrow> fifo_pull_uint8 fd8 cell8 =
      (FIFO_OK, buffer fd8 ! slot_of (read_index fd8) (mask_f fd8),
       fd8\<lparr>read_index := advance (read_index fd8) (mask_f fd8)\<rparr>)) \<and>
   (fifo_is_full fd16 \<longrightarrow> fifo_push_uint16 fd16 item = (FIFO_ERROR_OVERFLOW, fd16)) \<and>
   (\<not> fifo_is_full fd16 \<longrightarrow> fifo_push_uint16 fd16 item =
      (FIFO_OK, fd16\<lparr>buffer := (buffer fd16)[slot_of (write_index fd16) (mask_f fd16) := ucast item],
                    write_index := advance (write_index fd16) (mask_f fd16)\<rparr>)) \<and>
   (fifo_is_empty fd16 \<longrightarrow> fifo_pull_uint16 fd16 cell16 = (FIFO_ERROR_UNDERFLOW, cell16, fd16)) \<and>
   (\<not> fifo_is_empty fd16 \<longrightarrow> fifo_pull_uint16 fd16 cell16 =
      (FIFO_OK, buffer fd16 ! slot_of (read_index fd16) (mask_f fd16),
       fd16\<lparr>read_index := advance (read_index fd16) (mask_f fd16)\<rparr>)) \<and>
   (fifo_is_full fd32 \<longrightarrow> fifo_push_uint32 fd32 item = (FIFO_ERROR_OVERFLOW, fd32)) \<and>
   (\<not> fifo_is_full fd32 \<longrightarrow> fifo_push_uint32 fd32 item =
      (FIFO_OK, fd32\<lparr>buffer := (buffer fd32)[slot_of (write_index fd32) (mask_f fd32) := ucast item],
                    write_index := advance (write_index fd32) (mask_f fd32)\<rparr>)) \<and>
   (fifo_is_empty fd32 \<longrightarrow> fifo_pull_uint32 fd32 cell32 = (FIFO_ERROR_UNDERFLOW, cell32, fd32)) \<and>
   (\<not> fifo_is_empty fd32 \<longrightarrow> fifo_pull_uint32 fd32 cell32 =
      (FIFO_OK, buffer fd32 ! slot_of (read_index fd32) (mask_f fd32),
       fd32\<lparr>read_index := advance (read_index fd32) (mask_f fd32)\<rparr>))"
  by (simp add: fifo_push_uint8_def fifo_pull_uint8_def fifo_push_uint16_def
      fifo_pull_uint16_def fifo_push_uint32_def fifo_pull_uint32_def Let_def)

theorem checked_ops_atomic_witness:
  "fifo_is_full \<lparr>buffer = [7 :: 8 word], read_index = 0, write_index = 1, size_f = 1, mask_f = 1\<rparr> \<and>
   fifo_push_uint8 \<lparr>buffer = [7], read_index = 0, write_index = 1, size_f = 1, mask_f = 1\<rparr> 9
     = (FIFO_ERROR_OVERFLOW,
        \<lparr>buffer = [7], read_index = 0, write_index = 1, size_f = 1, mask_f = 1\<rparr>) \<and>
   \<not> fifo_is_empty \<lparr>buffer = [7 :: 8 word], read_index = 0, write_index = 1, size_f = 1, mask_f = 1\<rparr> \<and>
   fifo_pull_uint8 \<lparr>buffer = [7], read_index = 0, write_index = 1, size_f = 1, mask_f = 1\<rparr> 0
     = (FIFO_OK, 7, \<lparr>buffer = [7], read_index = 1, write_index = 1, size_f = 1, mask_f = 1\<rparr>) \<and>
   \<not> fifo_is_full \<lparr>buffer = [7 :: 8 word], read_index = 1, write_index = 1, size_f = 1, mask_f = 1\<rparr> \<and>
   fifo_push_uint8 \<lparr>buffer = [7], read_index = 1, write_index = 1, size_f = 1, mask_f = 1\<rparr> 9
     = (FIFO_OK, \<lparr>buffer = [9], read_index = 1, write_index = 0, size_f = 1, mask_f = 1\<rparr>) \<and>
   fifo_is_empty \<lparr>buffer = [7 :: 8 word], read_index = 1, write_index = 1, size_f = 1, mask_f = 1\<rparr> \<and>
   fifo_pull_uint8 \<lparr>buffer = [7], read_index = 1, write_index = 1, size_f = 1, mask_f = 1\<rparr> 0
     = (FIFO_ERROR_UNDERFLOW, 0,
        \<lparr>buffer = [7], read_index = 1, write_index = 1, size_f = 1, mask_f = 1\<rparr>) \<and>
   fifo_is_full \<lparr>buffer = [7 :: 16 word], read_index = 0, write_index = 1, size_f = 1, mask_f = 1\<rparr> \<and>
   fifo_push_uint16 \<lparr>buffer = [7], read_index = 0, write_index = 1, size_f = 1, mask_f = 1\<rparr> 9
     = (FIFO_ERROR_OVERFLOW,
        \<lparr>buffer = [7], read_index = 0, write_index = 1, size_f = 1, mask_f = 1\<rparr>) \<and>
   fifo_pull_uint16 \<lparr>buffer = [7], read_index = 0, write_index = 1, size_f = 1, mask_f = 1\<rparr> 0
     = (FIFO_OK, 7, \<lparr>buffer = [7], read_index = 1, write_index = 1, size_f = 1, mask_f = 1\<rparr>) \<and>
   fifo_push_uint16 \<lparr>buffer = [7], read_index = 1, write_index = 1, size_f = 1, mask_f = 1\<rparr> 9
     = (FIFO_OK, \<lparr>buffer = [9], read_index = 1, write_index = 0, size_f = 1, mask_f = 1\<rparr>) \<and>
   fifo_pull_uint16 \<lparr>buffer = [7], read_index = 1, write_index = 1, size_f = 1, mask_f = 1\<rparr> 0
     = (FIFO_ERROR_UNDERFLOW, 0,
        \<lparr>buffer = [7], read_index = 1, write_index = 1, size_f = 1, mask_f = 1\<rparr>) \<and>
   fifo_is_full \<lparr>buffer = [7 :: 32 word], read_index = 0, write_index = 1, size_f = 1, mask_f = 1\<rparr> \<and>
   fifo_push_uint32 \<lparr>buffer = [7], read_index = 0, write_index = 1, size_f = 1, mask_f = 1\<rparr> 9
     = (FIFO_ERROR_OVERFLOW,
        \<lparr>buffer = [7], read_index = 0, write_index = 1, size_f = 1, mask_f = 1\<rparr>) \<and>
   fifo_pull_uint32 \<lparr>buffer = [7], read_index = 0, write_index = 1, size_f = 1, mask_f = 1\<rparr> 0
     = (FIFO_OK, 7, \<lparr>buffer = [7], read_index = 1, write_index = 1, size_f = 1, mask_f = 1\<rparr>) \<and>
   fifo_push_uint32 \<lparr>buffer = [7], read_index = 1, write_index = 1, size_f = 1, mask_f = 1\<rparr> 9
     = (FIFO_OK, \<lparr>buffer = [9], read_index = 1, write_index = 0, size_f = 1, mask_f = 1\<rparr>) \<and>
   fifo_pull_uint32 \<lparr>buffer = [7], read_index = 1, write_index = 1, size_f = 1, mask_f = 1\<rparr> 0
     = (FIFO_ERROR_UNDERFLOW, 0,
        \<lparr>buffer = [7], read_index = 1, write_index = 1, size_f = 1, mask_f = 1\<rparr>)"
proof -
  show ?thesis
    using checked_ops_atomic
        [of "\<lparr>buffer = [7], read_index = 0, write_index = 1, size_f = 1, mask_f = 1\<rparr>" 9 0
            "\<lparr>buffer = [7], read_index = 0, write_index = 1, size_f = 1, mask_f = 1\<rparr>" 0
            "\<lparr>buffer = [7], read_index = 0, write_index = 1, size_f = 1, mask_f = 1\<rparr>" 0]
      checked_ops_atomic
        [of "\<lparr>buffer = [7], read_index = 1, write_index = 1, size_f = 1, mask_f = 1\<rparr>" 9 0
            "\<lparr>buffer = [7], read_index = 1, write_index = 1, size_f = 1, mask_f = 1\<rparr>" 0
            "\<lparr>buffer = [7], read_index = 1, write_index = 1, size_f = 1, mask_f = 1\<rparr>" 0]
    by (simp add: slot_of_def advance_def fifo_is_full_def fifo_is_empty_def
        fifo_get_used_size_def)
qed

text \<open>
  Claim C5. In every state that a sequence of calls reaches from a freshly initialised
  FIFO of capacity \<open>2 ^ k\<close>, at each of the three element widths: \<^verbatim>\<open>fifo_is_empty\<close>
  holds exactly when \<^verbatim>\<open>fifo_get_used_size\<close> is 0, which is exactly when the two indices
  are equal; \<^verbatim>\<open>fifo_is_full\<close> holds exactly when \<^verbatim>\<open>fifo_get_used_size\<close> is the
  capacity; and the FIFO is never empty and full at once.
\<close>

theorem fifo_empty_full_distinct:
  assumes "k \<le> 7"
  shows
    "(fifo_run fifo_uint8 (snd (fifo_init fd8 buf8 (2 ^ k)), c8) ops8 = Some (es8, s8, c8') \<longrightarrow>
        (fifo_is_empty s8 \<longleftrightarrow> fifo_get_used_size s8 = 0) \<and>
        (fifo_is_empty s8 \<longleftrightarrow> read_index s8 = write_index s8) \<and>
        (fifo_is_full s8 \<longleftrightarrow> uint (fifo_get_used_size s8) = 2 ^ k) \<and>
        \<not> (fifo_is_empty s8 \<and> fifo_is_full s8)) \<and>
     (fifo_run fifo_uint16 (snd (fifo_init fd16 buf16 (2 ^ k)), c16) ops16 = Some (es16, s16, c16') \<longrightarrow>
        (fifo_is_empty s16 \<longleftrightarrow> fifo_get_used_size s16 = 0) \<and>
        (fifo_is_empty s16 \<longleftrightarrow> read_index s16 = write_index s16) \<and>
        (fifo_is_full s16 \<longleftrightarrow> uint (fifo_get_used_size s16) = 2 ^ k) \<and>
        \<not> (fifo_is_empty s16 \<and> fifo_is_full s16)) \<and>
     (fifo_run fifo_uint32 (snd (fifo_init fd32 buf32 (2 ^ k)), c32) ops32 = Some (es32, s32, c32') \<longrightarrow>
        (fifo_is_empty s32 \<longleftrightarrow> fifo_get_used_size s32 = 0) \<and>
        (fifo_is_empty s32 \<longleftrightarrow> read_index s32 = write_index s32) \<and>
        (fifo_is_full s32 \<longleftrightarrow> uint (fifo_get_used_size s32) = 2 ^ k) \<and>
        \<not> (fifo_is_empty s32 \<and> fifo_is_full s32))"
proof (intro conjI impI)
  assume "fifo_run fifo_uint8 (snd (fifo_init fd8 buf8 (2 ^ k)), c8) ops8 = Some (es8, s8, c8')"
  then have i8: "index_inv k s8"
    using assms unfolding fifo_uint8_generic by (intro reachable_index_inv)
  note r8 = empty_full_generic [OF i8]
  from r8 show "fifo_is_empty s8 \<longleftrightarrow> fifo_get_used_size s8 = 0" by (elim conjE)
  from r8 show "fifo_is_empty s8 \<longleftrightarrow> read_index s8 = write_index s8" by (elim conjE)
  from r8 show "fifo_is_full s8 \<longleftrightarrow> uint (fifo_get_used_size s8) = 2 ^ k" by (elim conjE)
  from r8 show "\<not> (fifo_is_empty s8 \<and> fifo_is_full s8)" by (elim conjE)
next
  assume "fifo_run fifo_uint16 (snd (fifo_init fd16 buf16 (2 ^ k)), c16) ops16 = Some (es16, s16, c16')"
  then have i16: "index_inv k s16"
    using assms unfolding fifo_uint16_generic by (intro reachable_index_inv)
  note r16 = empty_full_generic [OF i16]
  from r16 show "fifo_is_empty s16 \<longleftrightarrow> fifo_get_used_size s16 = 0" by (elim conjE)
  from r16 show "fifo_is_empty s16 \<longleftrightarrow> read_index s16 = write_index s16" by (elim conjE)
  from r16 show "fifo_is_full s16 \<longleftrightarrow> uint (fifo_get_used_size s16) = 2 ^ k" by (elim conjE)
  from r16 show "\<not> (fifo_is_empty s16 \<and> fifo_is_full s16)" by (elim conjE)
next
  assume "fifo_run fifo_uint32 (snd (fifo_init fd32 buf32 (2 ^ k)), c32) ops32 = Some (es32, s32, c32')"
  then have i32: "index_inv k s32"
    using assms unfolding fifo_uint32_generic by (intro reachable_index_inv)
  note r32 = empty_full_generic [OF i32]
  from r32 show "fifo_is_empty s32 \<longleftrightarrow> fifo_get_used_size s32 = 0" by (elim conjE)
  from r32 show "fifo_is_empty s32 \<longleftrightarrow> read_index s32 = write_index s32" by (elim conjE)
  from r32 show "fifo_is_full s32 \<longleftrightarrow> uint (fifo_get_used_size s32) = 2 ^ k" by (elim conjE)
  from r32 show "\<not> (fifo_is_empty s32 \<and> fifo_is_full s32)" by (elim conjE)
qed

theorem fifo_empty_full_distinct_witness:
  "(0 :: nat) \<le> 7 \<and>
   fifo_run fifo_uint8
     (snd (fifo_init \<lparr>buffer = [], read_index = 9, write_index = 3, size_f = 0, mask_f = 0\<rparr>
        [0] (2 ^ 0)), 0) [Push 7]
     = Some ([Push_returned FIFO_OK],
          \<lparr>buffer = [7], read_index = 0, write_index = 1, size_f = 1, mask_f = 1\<rparr>, 0) \<and>
   fifo_is_full \<lparr>buffer = [7 :: 8 word], read_index = 0, write_index = 1, size_f = 1, mask_f = 1\<rparr> \<and>
   \<not> fifo_is_empty \<lparr>buffer = [7 :: 8 word], read_index = 0, write_index = 1, size_f = 1, mask_f = 1\<rparr> \<and>
   fifo_run fifo_uint16
     (snd (fifo_init \<lparr>buffer = [], read_index = 9, write_index = 3, size_f = 0, mask_f = 0\<rparr>
        [0] (2 ^ 0)), 0) [Push 7]
     = Some ([Push_returned FIFO_OK],
          \<lparr>buffer = [7], read_index = 0, write_index = 1, size_f = 1, mask_f = 1\<rparr>, 0) \<and>
   \<not> fifo_is_empty \<lparr>buffer = [7 :: 16 word], read_index = 0, write_index = 1, size_f = 1, mask_f = 1\<rparr> \<and>
   fifo_run fifo_uint32
     (snd (fifo_init \<lparr>buffer = [], read_index = 9, write_index = 3, size_f = 0, mask_f = 0\<rparr>
        [0] (2 ^ 0)), 0) [Push 7]
     = Some ([Push_returned FIFO_OK],
          \<lparr>buffer = [7], read_index = 0, write_index = 1, size_f = 1, mask_f = 1\<rparr>, 0) \<and>
   \<not> fifo_is_empty \<lparr>buffer = [7 :: 32 word], read_index = 0, write_index = 1, size_f = 1, mask_f = 1\<rparr>"
proof -
  have k: "(0 :: nat) \<le> 7" by simp
  have r8: "fifo_run fifo_uint8
     (snd (fifo_init \<lparr>buffer = [], read_index = 9, write_index = 3, size_f = 0, mask_f = 0\<rparr>
        [0] (2 ^ 0)), 0) [Push 7]
     = Some ([Push_returned FIFO_OK],
          \<lparr>buffer = [7], read_index = 0, write_index = 1, size_f = 1, mask_f = 1\<rparr>, 0)"
    by (simp add: fifo_eval)
  have r16: "fifo_run fifo_uint16
     (snd (fifo_init \<lparr>buffer = [], read_index = 9, write_index = 3, size_f = 0, mask_f = 0\<rparr>
        [0] (2 ^ 0)), 0) [Push 7]
     = Some ([Push_returned FIFO_OK],
          \<lparr>buffer = [7], read_index = 0, write_index = 1, size_f = 1, mask_f = 1\<rparr>, 0)"
    by (simp add: fifo_eval)
  have r32: "fifo_run fifo_uint32
     (snd (fifo_init \<lparr>buffer = [], read_index = 9, write_index = 3, size_f = 0, mask_f = 0\<rparr>
        [0] (2 ^ 0)), 0) [Push 7]
     = Some ([Push_returned FIFO_OK],
          \<lparr>buffer = [7], read_index = 0, write_index = 1, size_f = 1, mask_f = 1\<rparr>, 0)"
    by (simp add: fifo_eval)
  note w = fifo_empty_full_distinct [OF k, THEN conjunct1, rule_format, OF r8]
    fifo_empty_full_distinct [OF k, THEN conjunct2, THEN conjunct1, rule_format, OF r16]
    fifo_empty_full_distinct [OF k, THEN conjunct2, THEN conjunct2, rule_format, OF r32]
  show ?thesis using k r8 r16 r32 w by (simp add: fifo_is_full_def fifo_get_used_size_def)
qed

text \<open>
  Claim C6. \<^verbatim>\<open>fifo_init\<close> succeeds exactly for the sizes that are powers of two. For
  such a size (as a \<^verbatim>\<open>uint8_t\<close> it is one of 1, 2, 4, ..., 128) it returns \<^verbatim>\<open>FIFO_OK\<close>
  and leaves a descriptor with both indices 0, the size recorded and the mask
  \<open>2 \<times> size - 1\<close> (as an integer: 255 for the size 128). For every other size (0, a
  number that is no power of two, so every number above 128 too) it returns
  \<^verbatim>\<open>FIFO_ERROR\<close> and the descriptor is the one it was given.
\<close>

theorem fifo_init_capacity:
  "((\<exists>k. uint sz = 2 ^ k) \<longrightarrow>
      fst (fifo_init fd buf sz) = FIFO_OK \<and>
      read_index (snd (fifo_init fd buf sz)) = 0 \<and>
      write_index (snd (fifo_init fd buf sz)) = 0 \<and>
      size_f (snd (fifo_init fd buf sz)) = sz \<and>
      uint (mask_f (snd (fifo_init fd buf sz))) = 2 * uint sz - 1) \<and>
   (\<not> (\<exists>k. uint sz = 2 ^ k) \<longrightarrow> fifo_init fd buf sz = (FIFO_ERROR, fd))"
proof (cases "\<exists>k. uint sz = 2 ^ k")
  case True
  then obtain k where "uint sz = 2 ^ k" ..
  then have k: "k \<le> 7" and sz: "sz = 2 ^ k" using uint_pow2_word8 by blast+
  show ?thesis
    using True k unfolding sz by (simp add: fifo_init_pow2 uint_mask8 uint_pow8)
next
  case False
  then have "sz \<notin> set [1, 2, 4, 8, 16, 32, 64, 128]"
    by (simp only: valid_capacity_iff not_False_eq_True)
  then show ?thesis using False by (simp only: fifo_init_def if_False simp_thms)
qed

theorem fifo_init_capacity_witness:
  "(\<exists>k. uint (128 :: 8 word) = 2 ^ k) \<and>
   fifo_init \<lparr>buffer = [], read_index = 9, write_index = 3, size_f = 0, mask_f = 0\<rparr>
     [5, 6 :: 8 word] 128
     = (FIFO_OK, \<lparr>buffer = [5, 6], read_index = 0, write_index = 0, size_f = 128, mask_f = 255\<rparr>) \<and>
   \<not> (\<exists>k. uint (96 :: 8 word) = 2 ^ k) \<and>
   fifo_init \<lparr>buffer = [], read_index = 9, write_index = 3, size_f = 0, mask_f = 0\<rparr>
     [5, 6 :: 8 word] 96
     = (FIFO_ERROR, \<lparr>buffer = [], read_index = 9, write_index = 3, size_f = 0, mask_f = 0\<rparr>)"
proof -
  have "uint (128 :: 8 word) = 2 ^ 7" by simp
  then have p: "\<exists>k. uint (128 :: 8 word) = 2 ^ k" ..
  have "(96 :: 8 word) \<notin> set [1, 2, 4, 8, 16, 32, 64, 128]" by simp
  then have n: "\<not> (\<exists>k. uint (96 :: 8 word) = 2 ^ k)"
    by (simp only: valid_capacity_iff not_False_eq_True)
  show ?thesis
    using p n
      fifo_init_capacity [of 128
        "\<lparr>buffer = [], read_index = 9, write_index = 3, size_f = 0, mask_f = 0\<rparr>" "[5, 6 :: 8 word]"]
      fifo_init_capacity [of 96
        "\<lparr>buffer = [], read_index = 9, write_index = 3, size_f = 0, mask_f = 0\<rparr>" "[5, 6 :: 8 word]"]
    by (simp add: fifo_init_def)
qed

text \<open>
  Claim C7. Where the FIFO is not full, the checked push returns \<^verbatim>\<open>FIFO_OK\<close> and leaves
  the descriptor (indices and storage) that the unchecked push of the same item leaves;
  where the FIFO is not empty, the checked pull returns \<^verbatim>\<open>FIFO_OK\<close> and delivers the
  element and leaves the descriptor that the unchecked pull returns. This holds in every
  state of the descriptor and at each of the three element widths.
\<close>

theorem checked_equals_unchecked:
  "(\<not> fifo_is_full fd8 \<longrightarrow>
      fifo_push_uint8 fd8 item = (FIFO_OK, fifo_push_uint8_nocheck fd8 item)) \<and>
   (\<not> fifo_is_empty fd8 \<longrightarrow>
      fifo_pull_uint8 fd8 cell8 = (FIFO_OK, fifo_pull_uint8_nocheck fd8)) \<and>
   (\<not> fifo_is_full fd16 \<longrightarrow>
      fifo_push_uint16 fd16 item = (FIFO_OK, fifo_push_uint16_nocheck fd16 item)) \<and>
   (\<not> fifo_is_empty fd16 \<longrightarrow>
      fifo_pull_uint16 fd16 cell16 = (FIFO_OK, fifo_pull_uint16_nocheck fd16)) \<and>
   (\<not> fifo_is_full fd32 \<longrightarrow>
      fifo_push_uint32 fd32 item = (FIFO_OK, fifo_push_uint32_nocheck fd32 item)) \<and>
   (\<not> fifo_is_empty fd32 \<longrightarrow>
      fifo_pull_uint32 fd32 cell32 = (FIFO_OK, fifo_pull_uint32_nocheck fd32))"
  by (simp add: fifo_push_uint8_def fifo_push_uint8_nocheck_def fifo_pull_uint8_def
      fifo_pull_uint8_nocheck_def fifo_push_uint16_def fifo_push_uint16_nocheck_def
      fifo_pull_uint16_def fifo_pull_uint16_nocheck_def fifo_push_uint32_def
      fifo_push_uint32_nocheck_def fifo_pull_uint32_def fifo_pull_uint32_nocheck_def Let_def)

theorem checked_equals_unchecked_witness:
  "\<not> fifo_is_full \<lparr>buffer = [7, 8 :: 8 word], read_index = 3, write_index = 0, size_f = 2, mask_f = 3\<rparr> \<and>
   \<not> fifo_is_empty \<lparr>buffer = [7, 8 :: 8 word], read_index = 3, write_index = 0, size_f = 2, mask_f = 3\<rparr> \<and>
   fifo_push_uint8 \<lparr>buffer = [7, 8], read_index = 3, write_index = 0, size_f = 2, mask_f = 3\<rparr> 9
     = (FIFO_OK, fifo_push_uint8_nocheck
          \<lparr>buffer = [7, 8], read_index = 3, write_index = 0, size_f = 2, mask_f = 3\<rparr> 9) \<and>
   fifo_push_uint8_nocheck
          \<lparr>buffer = [7, 8], read_index = 3, write_index = 0, size_f = 2, mask_f = 3\<rparr> 9
     = \<lparr>buffer = [9, 8], read_index = 3, write_index = 1, size_f = 2, mask_f = 3\<rparr> \<and>
   fifo_pull_uint8 \<lparr>buffer = [7, 8], read_index = 3, write_index = 0, size_f = 2, mask_f = 3\<rparr> 0
     = (FIFO_OK, fifo_pull_uint8_nocheck
          \<lparr>buffer = [7, 8], read_index = 3, write_index = 0, size_f = 2, mask_f = 3\<rparr>) \<and>
   fifo_pull_uint8_nocheck
          \<lparr>buffer = [7, 8], read_index = 3, write_index = 0, size_f = 2, mask_f = 3\<rparr>
     = (8, \<lparr>buffer = [7, 8], read_index = 0, write_index = 0, size_f = 2, mask_f = 3\<rparr>) \<and>
   \<not> fifo_is_full \<lparr>buffer = [7, 8 :: 16 word], read_index = 3, write_index = 0, size_f = 2, mask_f = 3\<rparr> \<and>
   \<not> fifo_is_empty \<lparr>buffer = [7, 8 :: 16 word], read_index = 3, write_index = 0, size_f = 2, mask_f = 3\<rparr> \<and>
   fifo_push_uint16 \<lparr>buffer = [7, 8], read_index = 3, write_index = 0, size_f = 2, mask_f = 3\<rparr> 9
     = (FIFO_OK, fifo_push_uint16_nocheck
          \<lparr>buffer = [7, 8], read_index = 3, write_index = 0, size_f = 2, mask_f = 3\<rparr> 9) \<and>
   fifo_pull_uint16 \<lparr>buffer = [7, 8], read_index = 3, write_index = 0, size_f = 2, mask_f = 3\<rparr> 0
     = (FIFO_OK, fifo_pull_uint16_nocheck
          \<lparr>buffer = [7, 8], read_index = 3, write_index = 0, size_f = 2, mask_f = 3\<rparr>) \<and>
   \<not> fifo_is_full \<lparr>buffer = [7, 8 :: 32 word], read_index = 3, write_index = 0, size_f = 2, mask_f = 3\<rparr> \<and>
   \<not> fifo_is_empty \<lparr>buffer = [7, 8 :: 32 word], read_index = 3, write_index = 0, size_f = 2, mask_f = 3\<rparr> \<and>
   fifo_push_uint32 \<lparr>buffer = [7, 8], read_index = 3, write_index = 0, size_f = 2, mask_f = 3\<rparr> 9
     = (FIFO_OK, fifo_push_uint32_nocheck
          \<lparr>buffer = [7, 8], read_index = 3, write_index = 0, size_f = 2, mask_f = 3\<rparr> 9) \<and>
   fifo_pull_uint32 \<lparr>buffer = [7, 8], read_index = 3, write_index = 0, size_f = 2, mask_f = 3\<rparr> 0
     = (FIFO_OK, fifo_pull_uint32_nocheck
          \<lparr>buffer = [7, 8], read_index = 3, write_index = 0, size_f = 2, mask_f = 3\<rparr>)"
proof -
  have n8: "fifo_push_uint8_nocheck
          \<lparr>buffer = [7, 8], read_index = 3, write_index = 0, size_f = 2, mask_f = 3\<rparr> 9
     = \<lparr>buffer = [9, 8], read_index = 3, write_index = 1, size_f = 2, mask_f = 3\<rparr>"
    and p8: "fifo_pull_uint8_nocheck
          \<lparr>buffer = [7, 8], read_index = 3, write_index = 0, size_f = 2, mask_f = 3\<rparr>
     = (8, \<lparr>buffer = [7, 8], read_index = 0, write_index = 0, size_f = 2, mask_f = 3\<rparr>)"
    by (simp_all add: fifo_push_uint8_nocheck_def fifo_pull_uint8_nocheck_def slot_of_def advance_def)
  show ?thesis
    using checked_equals_unchecked
        [of "\<lparr>buffer = [7, 8], read_index = 3, write_index = 0, size_f = 2, mask_f = 3\<rparr>" 9 0
            "\<lparr>buffer = [7, 8], read_index = 3, write_index = 0, size_f = 2, mask_f = 3\<rparr>" 0
            "\<lparr>buffer = [7, 8], read_index = 3, write_index = 0, size_f = 2, mask_f = 3\<rparr>" 0]
    by (simp add: n8 p8 fifo_is_full_def fifo_is_empty_def fifo_get_used_size_def)
qed

text \<open>
  Claim C8. Whatever the descriptor holds, after \<^verbatim>\<open>fifo_flush\<close> the FIFO is empty:
  \<^verbatim>\<open>fifo_is_empty\<close> holds, \<^verbatim>\<open>fifo_get_used_size\<close> is 0 and both indices are 0. The
  descriptor is of any element type, so this is the statement at every width.
\<close>

theorem fifo_flush_resets:
  "fifo_is_empty (fifo_flush fd) \<and> fifo_get_used_size (fifo_flush fd) = 0 \<and>
   read_index (fifo_flush fd) = 0 \<and> write_index (fifo_flush fd) = 0"
  by (simp add: fifo_flush_def fifo_is_empty_def fifo_get_used_size_def)

text \<open>
  Claim C10. A checked pull on an empty FIFO, at each of the three element widths,
  returns \<^verbatim>\<open>FIFO_ERROR_UNDERFLOW\<close> and does not write through \<^verbatim>\<open>item\<close>: the value
  stored there after the call is the value stored there before.
\<close>

theorem fifo_pull_underflow_keeps_item:
  "(fifo_is_empty fd8 \<longrightarrow>
      fst (fifo_pull_uint8 fd8 item8) = FIFO_ERROR_UNDERFLOW \<and>
      fst (snd (fifo_pull_uint8 fd8 item8)) = item8) \<and>
   (fifo_is_empty fd16 \<longrightarrow>
      fst (fifo_pull_uint16 fd16 item16) = FIFO_ERROR_UNDERFLOW \<and>
      fst (snd (fifo_pull_uint16 fd16 item16)) = item16) \<and>
   (fifo_is_empty fd32 \<longrightarrow>
      fst (fifo_pull_uint32 fd32 item32) = FIFO_ERROR_UNDERFLOW \<and>
      fst (snd (fifo_pull_uint32 fd32 item32)) = item32)"
  by (simp add: fifo_pull_uint8_def fifo_pull_uint16_def fifo_pull_uint32_def)

theorem fifo_pull_underflow_keeps_item_witness:
  "fifo_is_empty \<lparr>buffer = [7 :: 8 word], read_index = 1, write_index = 1, size_f = 1, mask_f = 1\<rparr> \<and>
   fst (fifo_pull_uint8
     \<lparr>buffer = [7], read_index = 1, write_index = 1, size_f = 1, mask_f = 1\<rparr> 42)
     = FIFO_ERROR_UNDERFLOW \<and>
   fst (snd (fifo_pull_uint8
     \<lparr>buffer = [7], read_index = 1, write_index = 1, size_f = 1, mask_f = 1\<rparr> 42)) = 42 \<and>
   fifo_is_empty \<lparr>buffer = [7 :: 16 word], read_index = 1, write_index = 1, size_f = 1, mask_f = 1\<rparr> \<and>
   fst (fifo_pull_uint16
     \<lparr>buffer = [7], read_index = 1, write_index = 1, size_f = 1, mask_f = 1\<rparr> 42)
     = FIFO_ERROR_UNDERFLOW \<and>
   fst (snd (fifo_pull_uint16
     \<lparr>buffer = [7], read_index = 1, write_index = 1, size_f = 1, mask_f = 1\<rparr> 42)) = 42 \<and>
   fifo_is_empty \<lparr>buffer = [7 :: 32 word], read_index = 1, write_index = 1, size_f = 1, mask_f = 1\<rparr> \<and>
   fst (fifo_pull_uint32
     \<lparr>buffer = [7], read_index = 1, write_index = 1, size_f = 1, mask_f = 1\<rparr> 42)
     = FIFO_ERROR_UNDERFLOW \<and>
   fst (snd (fifo_pull_uint32
     \<lparr>buffer = [7], read_index = 1, write_index = 1, size_f = 1, mask_f = 1\<rparr> 42)) = 42"
  using fifo_pull_underflow_keeps_item
    [of "\<lparr>buffer = [7], read_index = 1, write_index = 1, size_f = 1, mask_f = 1\<rparr>" 42
        "\<lparr>buffer = [7], read_index = 1, write_index = 1, size_f = 1, mask_f = 1\<rparr>" 42
        "\<lparr>buffer = [7], read_index = 1, write_index = 1, size_f = 1, mask_f = 1\<rparr>" 42]
  by (simp add: fifo_is_empty_def)

end
